theory Spec2Isabelle
  imports Main
begin

chapter \<open>Definitions\<close>

section \<open>Cascading form fields (\<^verbatim>\<open>views/static/js/form-dependencies.js\<close>)\<close>

text \<open>
  \<^verbatim>\<open>currentFormDependencies\<close> is a JavaScript object, \<^verbatim>\<open>data.form.dependencies\<close> of the
  server's answer or \<^verbatim>\<open>{}\<close>. Its own properties are an association list from names to
  values. Of a value the code asks only whether it is falsy (\<^verbatim>\<open>|| []\<close>) and whether it
  has \<^verbatim>\<open>forEach\<close>: it is falsy (\<^verbatim>\<open>undefined\<close>, \<^verbatim>\<open>null\<close>, \<^verbatim>\<open>0\<close>, the empty string), an
  array, given by its elements as the strings they are turned into when they are
  concatenated and used as property names, or a truthy value that is not an array.
\<close>

type_synonym field = string

datatype js_value = Falsy | Array "field list" | NotArray

type_synonym dependencies = "(field \<times> js_value) list"

datatype js_error = TypeError | SyntaxError

text \<open>
  A call returns, or throws and leaves the state as it was at the throw.
\<close>

datatype 's completion = Returns 's | Throws js_error 's

text \<open>
  \<^verbatim>\<open>document.querySelector\<close> throws a \<^verbatim>\<open>SyntaxError\<close> for a string that is not a
  selector, and returns \<^verbatim>\<open>null\<close> or the first matching element otherwise.
\<close>

datatype 'el query_result = Invalid | NoMatch | Match 'el

text \<open>
  What the browser supplies, as parameters: which names a property read finds on
  \<^verbatim>\<open>Object.prototype\<close> when the object has no own property of that name
  (\<^verbatim>\<open>constructor\<close>, \<^verbatim>\<open>toString\<close>, \<^verbatim>\<open>__proto__\<close> and others; what is found there is a
  function or an object, truthy and without \<^verbatim>\<open>forEach\<close>), the selector engine, and
  the reading and writing of elements of the document.
\<close>

record ('doc, 'el) browser =
  inherited :: "string \<Rightarrow> bool"
  querySelector :: "'doc \<Rightarrow> string \<Rightarrow> 'el query_result"
  tagName :: "'doc \<Rightarrow> 'el \<Rightarrow> string"
  set_innerHTML :: "'el \<Rightarrow> string \<Rightarrow> 'doc \<Rightarrow> 'doc"

text \<open>
  \<^verbatim>\<open>currentFormDependencies[name]\<close>: an own property first, then the prototype, else
  \<^verbatim>\<open>undefined\<close>. There is no own-property test anywhere in the file.
\<close>

definition get_property :: "('doc, 'el) browser \<Rightarrow> dependencies \<Rightarrow> field \<Rightarrow> js_value" where
  "get_property br deps name =
     (case map_of deps name of
        Some v \<Rightarrow> v
      | None \<Rightarrow> if inherited br name then NotArray else Falsy)"

text \<open>\<^verbatim>\<open>v || []\<close>.\<close>

definition or_empty_array :: "js_value \<Rightarrow> js_value" where
  "or_empty_array v = (case v of Falsy \<Rightarrow> Array [] | _ \<Rightarrow> v)"

text \<open>
  The selector is built by concatenation, the name neither escaped nor checked:
  \<^verbatim>\<open>'[data-field-name="' + dependentField + '"]'\<close>.
\<close>

definition field_selector :: "field \<Rightarrow> string" where
  "field_selector dependentField =
     ''[data-field-name='' @ [CHR 0x22] @ dependentField @ [CHR 0x22] @ '']''"

definition select_placeholder :: string where
  "select_placeholder = ''<option value='' @ [CHR 0x22, CHR 0x22] @ ''>-- Select --</option>''"

text \<open>
  \<^verbatim>\<open>Array.prototype.forEach\<close> with a callback that may throw or fail to return: the
  elements are taken in order, and the first call that does not return ends the loop.
\<close>

fun forEach ::
  "('a \<Rightarrow> 's \<Rightarrow> 's completion option) \<Rightarrow> 'a list \<Rightarrow> 's \<Rightarrow> 's completion option" where
  "forEach f [] s = Some (Returns s)"
| "forEach f (x # xs) s =
     (case f x s of
        None \<Rightarrow> None
      | Some (Throws e s') \<Rightarrow> Some (Throws e s')
      | Some (Returns s') \<Rightarrow> forEach f xs s')"

text \<open>
  The state of a run: the fields the callback has been called for, in order, and the
  document.
\<close>

type_synonym 'doc clear_state = "field list \<times> 'doc"

text \<open>
  The callback: the element is looked up, a \<^verbatim>\<open>SELECT\<close> element gets the placeholder
  option, and \<^verbatim>\<open>clearDependentFields\<close> is called on the field (\<open>recurse\<close>).
\<close>

definition clear_callback ::
  "('doc, 'el) browser \<Rightarrow> (field \<Rightarrow> 'doc clear_state \<Rightarrow> 'doc clear_state completion option) \<Rightarrow>
     field \<Rightarrow> 'doc clear_state \<Rightarrow> 'doc clear_state completion option" where
  "clear_callback br recurse dependentField s =
     (case s of (visited, doc) \<Rightarrow>
        (case querySelector br doc (field_selector dependentField) of
           Invalid \<Rightarrow> Some (Throws SyntaxError (visited @ [dependentField], doc))
         | NoMatch \<Rightarrow> recurse dependentField (visited @ [dependentField], doc)
         | Match element \<Rightarrow>
             recurse dependentField
               (visited @ [dependentField],
                if tagName br doc element = ''SELECT''
                then set_innerHTML br element select_placeholder doc
                else doc)))"

text \<open>
  \<^verbatim>\<open>clearDependentFields\<close>. The recursion of the code has no bound of its own; the
  \<open>depth\<close> argument is the number of nested calls that are available, and \<open>None\<close> says
  that they did not suffice. A run that returns or throws at some depth does the same at
  every greater depth (\<open>clear_depth_mono\<close> below); \<open>None\<close> at every depth is a run that
  does not end. Calling \<^verbatim>\<open>forEach\<close> on a truthy value that is not an array throws a
  \<^verbatim>\<open>TypeError\<close>.
\<close>

fun clearDependentFields ::
  "('doc, 'el) browser \<Rightarrow> nat \<Rightarrow> dependencies \<Rightarrow> field \<Rightarrow> 'doc clear_state \<Rightarrow>
     'doc clear_state completion option" where
  "clearDependentFields br 0 deps parentField s = None"
| "clearDependentFields br (Suc depth) deps parentField s =
     (case or_empty_array (get_property br deps parentField) of
        Array dependentFields \<Rightarrow>
          forEach (clear_callback br (clearDependentFields br depth deps)) dependentFields s
      | _ \<Rightarrow> Some (Throws TypeError s))"

text \<open>
  The dependency relation of a table: \<open>d\<close> depends on \<open>p\<close> when \<open>d\<close> is an element of
  the array that is the table's own property \<open>p\<close>.
\<close>

definition depends :: "dependencies \<Rightarrow> (field \<times> field) set" where
  "depends deps = {(p, d). \<exists>ds. map_of deps p = Some (Array ds) \<and> d \<in> set ds}"

text \<open>
  A name reads as an array or as nothing: its own property is an array or falsy, or it
  is no own property and the prototype has no member of that name.
\<close>

definition array_or_absent :: "('doc, 'el) browser \<Rightarrow> dependencies \<Rightarrow> field \<Rightarrow> bool" where
  "array_or_absent br deps name = (get_property br deps name \<noteq> NotArray)"

text \<open>The selector built from a name is one the selector engine accepts.\<close>

definition selector_accepted :: "('doc, 'el) browser \<Rightarrow> field \<Rightarrow> bool" where
  "selector_accepted br name = (\<forall>doc. querySelector br doc (field_selector name) \<noteq> Invalid)"

subsection \<open>An example page\<close>

text \<open>The members of \<^verbatim>\<open>Object.prototype\<close>.\<close>

definition standard_inherited :: "string \<Rightarrow> bool" where
  "standard_inherited name \<longleftrightarrow>
     name \<in> set [''constructor'', ''hasOwnProperty'', ''isPrototypeOf'',
       ''propertyIsEnumerable'', ''toLocaleString'', ''toString'', ''valueOf'', ''__proto__'',
       ''__defineGetter__'', ''__defineSetter__'', ''__lookupGetter__'', ''__lookupSetter__'']"

text \<open>
  A page is the list of its form elements: field name, tag name and inner HTML. Its
  selector engine takes a selector \<^verbatim>\<open>[data-field-name="v"]\<close> apart and looks for the first
  element named \<open>v\<close>, when \<open>v\<close> has no double quote, backslash or line feed; it refuses
  every other string. A browser refuses \<^verbatim>\<open>[data-field-name="a"b"]\<close> in the same way; it
  reads a backslash as the start of an escape, which this page does not attempt.
\<close>

type_synonym form = "(field \<times> string \<times> string) list"

fun strip_prefix :: "string \<Rightarrow> string \<Rightarrow> string option" where
  "strip_prefix [] s = Some s"
| "strip_prefix (p # ps) [] = None"
| "strip_prefix (p # ps) (ch # s) = (if p = ch then strip_prefix ps s else None)"

definition selector_value :: "string \<Rightarrow> string option" where
  "selector_value selector =
     (case strip_prefix (''[data-field-name='' @ [CHR 0x22]) selector of
        None \<Rightarrow> None
      | Some rest \<Rightarrow> map_option rev (strip_prefix (rev ([CHR 0x22] @ '']'')) (rev rest)))"

definition plain_value :: "string \<Rightarrow> bool" where
  "plain_value v \<longleftrightarrow> CHR 0x22 \<notin> set v \<and> CHR 0x5C \<notin> set v \<and> CHR 0x0A \<notin> set v"

fun set_html :: "field \<Rightarrow> string \<Rightarrow> form \<Rightarrow> form" where
  "set_html el html [] = []"
| "set_html el html ((name, tag_name, old) # doc) =
     (if name = el then (name, tag_name, html) # doc else (name, tag_name, old) # set_html el html doc)"

definition form_page :: "(form, field) browser" where
  "form_page =
     \<lparr>inherited = standard_inherited,
      querySelector = (\<lambda>doc selector.
         case selector_value selector of
           None \<Rightarrow> Invalid
         | Some v \<Rightarrow>
             if plain_value v
             then (case find (\<lambda>(name, tag_name, html). name = v) doc of
                     None \<Rightarrow> NoMatch
                   | Some (name, tag_name, html) \<Rightarrow> Match name)
             else Invalid),
      tagName = (\<lambda>doc el.
         case find (\<lambda>(name, tag_name, html). name = el) doc of
           None \<Rightarrow> []
         | Some (name, tag_name, html) \<Rightarrow> tag_name),
      set_innerHTML = set_html\<rparr>"

text \<open>The dependency tables of the examples.\<close>

definition address_table :: dependencies where
  "address_table = [(''country'', Array [''state'']), (''state'', Array [''city''])]"

definition looping_table :: dependencies where
  "looping_table = [(''a'', Array [''b'']), (''b'', Array [''a''])]"

definition constructor_table :: dependencies where
  "constructor_table = [(''country'', Array [''constructor'', ''state''])]"

definition quoted_table :: dependencies where
  "quoted_table = [(''country'', Array [''a'' @ [CHR 0x22] @ ''b'', ''state''])]"

section \<open>BaseNode, the base class of the nodes (\<^verbatim>\<open>part_001\<close>)\<close>

text \<open>
  What Python raises, as far as \<^verbatim>\<open>except Exception as e\<close> and the handler's
  \<^verbatim>\<open>str(e)\<close> tell the cases apart: \<open>Exception msg\<close> is an instance of
  \<^verbatim>\<open>Exception\<close> whose \<^verbatim>\<open>str\<close> is \<open>msg\<close>; \<open>ExceptionStrRaises exn\<close> is an instance of
  \<^verbatim>\<open>Exception\<close> whose \<^verbatim>\<open>__str__\<close> raises \<open>exn\<close>; \<^verbatim>\<open>KeyboardInterrupt\<close> and
  \<^verbatim>\<open>SystemExit\<close> derive from \<^verbatim>\<open>BaseException\<close> and not from \<^verbatim>\<open>Exception\<close>.
\<close>

datatype raised = Exception string | ExceptionStrRaises raised | KeyboardInterrupt | SystemExit

text \<open>
  Nodes and dictionaries are objects: they live in a store and are passed, kept and
  returned by reference. A dictionary is its items in insertion order.
\<close>

type_synonym 'v dict = "(string \<times> 'v) list"

type_synonym ref = nat

type_synonym dict_ref = nat

text \<open>
  The attributes \<^verbatim>\<open>__init__\<close> sets. \<open>config\<close> is the reference given to the constructor
  (\<^verbatim>\<open>None\<close> is allowed; the default \<^verbatim>\<open>{}\<close> is one dictionary shared by every node built
  without a config); \<open>observers\<close> holds references to nodes; \<open>pipeline\<close> is the
  \<^verbatim>\<open>Queue\<close> of the payloads put, oldest first; \<open>class_name\<close> is
  \<^verbatim>\<open>self.__class__.__name__\<close>. The logger and the template processor are in \<open>code\<close> below.
\<close>

record BaseNode =
  node_id :: string
  config :: "dict_ref option"
  observers :: "ref list"
  pipeline :: "dict_ref list"
  class_name :: string

datatype 'v log_record =
    Broadcasting string "'v dict"
  | ErrorNotifying string string
  | ObserverRemoved string
  | StartedInBackground

text \<open>
  The store: the nodes, the dictionaries, the lines logged, and the nodes whose
  \<^verbatim>\<open>main\<close> runs in a background thread.
\<close>

record 'v world =
  heap :: "ref \<Rightarrow> BaseNode"
  dicts :: "dict_ref \<Rightarrow> 'v dict"
  log :: "'v log_record list"
  started :: "ref list"

text \<open>
  What \<^verbatim>\<open>_process_config_with_payload\<close> hands back: a reference to a dictionary of the
  store (or \<^verbatim>\<open>None\<close>), a dictionary built by the template processor, or what the
  processor raised.
\<close>

datatype 'v config_result = Stored "dict_ref option" | Built "'v dict" | Raised raised

text \<open>
  The code BaseNode calls and does not contain, as parameters. Each may read and write
  the whole store, and each call comes back: it returns or it raises. \<open>update_of c r\<close> is the \<^verbatim>\<open>update\<close> that node \<open>r\<close>'s class has
  (\<open>BaseNode_update\<close> unless overridden), \<open>setup_of c r\<close> its \<^verbatim>\<open>setup\<close> and \<open>main_of c r\<close> a
  step of its \<^verbatim>\<open>main\<close>; both are abstract in BaseNode. \<open>process_form_values c r\<close> is
  \<^verbatim>\<open>self._template_processor.process_form_values\<close> of node \<open>r\<close> and \<open>node_logger c r\<close> a
  logging statement of node \<open>r\<close> through \<^verbatim>\<open>self._logger_enhanced\<close>, formatting of its
  arguments included; \<^verbatim>\<open>TemplateProcessor\<close> and \<^verbatim>\<open>NodeLogger\<close> are imported from modules
  that are not in the sources.
\<close>

record 'v code =
  update_of :: "ref \<Rightarrow> dict_ref \<Rightarrow> 'v world \<Rightarrow> raised option \<times> 'v world"
  setup_of :: "ref \<Rightarrow> 'v world \<Rightarrow> raised option \<times> 'v world"
  main_of :: "ref \<Rightarrow> 'v world \<Rightarrow> 'v world"
  process_form_values ::
    "ref \<Rightarrow> dict_ref option \<Rightarrow> dict_ref \<Rightarrow> 'v world \<Rightarrow> 'v config_result \<times> 'v world"
  node_logger :: "ref \<Rightarrow> 'v log_record \<Rightarrow> 'v world \<Rightarrow> raised option \<times> 'v world"

text \<open>
  \<^verbatim>\<open>if payload\<close> and \<^verbatim>\<open>if not payload\<close>: \<^verbatim>\<open>None\<close> and the empty dictionary are falsy.
\<close>

definition truthy :: "'v world \<Rightarrow> dict_ref option \<Rightarrow> bool" where
  "truthy w payload = (case payload of None \<Rightarrow> False | Some p \<Rightarrow> dicts w p \<noteq> [])"

text \<open>
  \<^verbatim>\<open>update\<close> as BaseNode has it: \<^verbatim>\<open>self._pipeline.put(payload)\<close>, on a \<^verbatim>\<open>Queue\<close> without
  a size limit.
\<close>

definition BaseNode_update :: "ref \<Rightarrow> dict_ref \<Rightarrow> 'v world \<Rightarrow> raised option \<times> 'v world" where
  "BaseNode_update self payload w =
     (None, w\<lparr>heap := (heap w)(self := (heap w self)\<lparr>pipeline := pipeline (heap w self) @ [payload]\<rparr>)\<rparr>)"

definition add_observer :: "ref \<Rightarrow> ref \<Rightarrow> 'v world \<Rightarrow> 'v world" where
  "add_observer self observer w =
     (let n = heap w self
      in if observer \<notin> set (observers n)
         then w\<lparr>heap := (heap w)(self := n\<lparr>observers := observers n @ [observer]\<rparr>)\<rparr>
         else w)"

definition remove_observer ::
  "'v code \<Rightarrow> ref \<Rightarrow> ref \<Rightarrow> 'v world \<Rightarrow> raised option \<times> 'v world" where
  "remove_observer c self observer w =
     (let n = heap w self
      in if observer \<in> set (observers n)
         then node_logger c self (ObserverRemoved (class_name (heap w observer)))
                (w\<lparr>heap := (heap w)(self := n\<lparr>observers := remove1 observer (observers n)\<rparr>)\<rparr>)
         else (None, w))"

text \<open>
  The \<^verbatim>\<open>for observer in self._observers\<close> loop. The list iterator keeps an index into
  the list object itself: each round it reads the length and the element at the index
  from the list as it is then, so what an \<^verbatim>\<open>update\<close> does to the list is seen by the
  rounds that follow. \<open>delivered\<close> records the calls of \<^verbatim>\<open>update\<close> made, in order. An
  instance of \<^verbatim>\<open>Exception\<close> is caught and logged, with \<^verbatim>\<open>str(e)\<close> evaluated in the
  handler; anything else leaves the loop, as does what \<^verbatim>\<open>str(e)\<close> or the logging
  statement raises. The result is \<open>None\<close> when the loop does not end. BaseNode changes
  the list in place only (\<^verbatim>\<open>append\<close>, \<^verbatim>\<open>remove\<close>); the attribute is never bound to
  another list, and the model has the list in the node for that reason.
\<close>

partial_function (option) notify_loop ::
  "'v code \<Rightarrow> ref \<Rightarrow> dict_ref \<Rightarrow> nat \<Rightarrow> (ref \<times> dict_ref) list \<Rightarrow> 'v world \<Rightarrow>
     (raised option \<times> (ref \<times> dict_ref) list \<times> 'v world) option" where
  "notify_loop c self payload i delivered w =
     (if i < length (observers (heap w self))
      then
        (let observer = observers (heap w self) ! i;
             delivered' = delivered @ [(observer, payload)]
         in case update_of c observer payload w of
              (None, w') \<Rightarrow> notify_loop c self payload (Suc i) delivered' w'
            | (Some (Exception msg), w') \<Rightarrow>
                (case node_logger c self (ErrorNotifying (class_name (heap w' observer)) msg) w' of
                   (None, w'') \<Rightarrow> notify_loop c self payload (Suc i) delivered' w''
                 | (Some exn, w'') \<Rightarrow> Some (Some exn, delivered', w''))
            | (Some (ExceptionStrRaises exn), w') \<Rightarrow> Some (Some exn, delivered', w')
            | (Some exn, w') \<Rightarrow> Some (Some exn, delivered', w'))
      else Some (None, delivered, w))"

text \<open>
  \<^verbatim>\<open>_notify_observers\<close>: nothing happens for a falsy payload; otherwise the broadcast
  line is logged, with the payload as it reads then, and the loop runs. The first
  component of the result is what reaches the caller (\<open>None\<close>: a normal return).
\<close>

definition notify_observers ::
  "'v code \<Rightarrow> ref \<Rightarrow> dict_ref option \<Rightarrow> 'v world \<Rightarrow>
     (raised option \<times> (ref \<times> dict_ref) list \<times> 'v world) option" where
  "notify_observers c self payload w =
     (case payload of
        None \<Rightarrow> Some (None, [], w)
      | Some p \<Rightarrow>
          if dicts w p = [] then Some (None, [], w)
          else (case node_logger c self (Broadcasting (class_name (heap w self)) (dicts w p)) w of
                  (Some exn, w') \<Rightarrow> Some (Some exn, [], w')
                | (None, w') \<Rightarrow> notify_loop c self p 0 [] w'))"

text \<open>
  \<^verbatim>\<open>_process_config_with_payload\<close>: with a truthy payload the template processor is
  called on \<^verbatim>\<open>self._config\<close> and the payload, both by reference, and its result is
  returned; otherwise \<^verbatim>\<open>self._config\<close> is returned, the reference and not a copy.
\<close>

definition process_config_with_payload ::
  "'v code \<Rightarrow> ref \<Rightarrow> dict_ref option \<Rightarrow> 'v world \<Rightarrow> 'v config_result \<times> 'v world" where
  "process_config_with_payload c self payload w =
     (case payload of
        None \<Rightarrow> (Stored (config (heap w self)), w)
      | Some p \<Rightarrow>
          if dicts w p = [] then (Stored (config (heap w self)), w)
          else process_form_values c self (config (heap w self)) p w)"

text \<open>
  \<^verbatim>\<open>kickoff\<close> starts a daemon thread on \<^verbatim>\<open>self.main\<close> and logs. The thread runs beside
  the calls that follow: the node is entered in \<open>started\<close>, and from then on a step of
  its \<^verbatim>\<open>main\<close> may come between any two calls.
\<close>

definition kickoff :: "'v code \<Rightarrow> ref \<Rightarrow> 'v world \<Rightarrow> raised option \<times> 'v world" where
  "kickoff c self w = node_logger c self StartedInBackground (w\<lparr>started := started w @ [self]\<rparr>)"

definition main_step :: "'v code \<Rightarrow> ref \<Rightarrow> 'v world \<Rightarrow> 'v world" where
  "main_step c self w = (if self \<in> set (started w) then main_of c self w else w)"

text \<open>
  An execution, as far as BaseNode takes part in it: a sequence of calls of its methods
  and of \<^verbatim>\<open>setup\<close> on nodes of the store, and of steps of the background threads. A call that raises
  leaves the store as it was when it raised, and the execution goes on; a call that
  does not return ends it with \<open>None\<close>.
\<close>

datatype call =
    AddObserver ref ref
  | RemoveObserver ref ref
  | NotifyObservers ref "dict_ref option"
  | Update ref dict_ref
  | ProcessConfigWithPayload ref "dict_ref option"
  | Setup ref
  | Kickoff ref
  | MainStep ref

fun exec_call :: "'v code \<Rightarrow> call \<Rightarrow> 'v world \<Rightarrow> 'v world option" where
  "exec_call c (AddObserver self observer) w = Some (add_observer self observer w)"
| "exec_call c (RemoveObserver self observer) w = Some (snd (remove_observer c self observer w))"
| "exec_call c (NotifyObservers self payload) w =
     (case notify_observers c self payload w of
        None \<Rightarrow> None
      | Some (exn, delivered, w') \<Rightarrow> Some w')"
| "exec_call c (Update self payload) w = Some (snd (update_of c self payload w))"
| "exec_call c (ProcessConfigWithPayload self payload) w =
     Some (snd (process_config_with_payload c self payload w))"
| "exec_call c (Setup self) w = Some (snd (setup_of c self w))"
| "exec_call c (Kickoff self) w = Some (snd (kickoff c self w))"
| "exec_call c (MainStep self) w = Some (main_step c self w)"

fun run_calls :: "'v code \<Rightarrow> call list \<Rightarrow> 'v world \<Rightarrow> 'v world option" where
  "run_calls c [] w = Some w"
| "run_calls c (x # xs) w =
     (case exec_call c x w of None \<Rightarrow> None | Some w' \<Rightarrow> run_calls c xs w')"

text \<open>
  A node's stored config: the reference the node holds and the items of the dictionary
  it refers to. \<open>leaves_configs\<close> says of the code BaseNode calls out to that none of it
  rebinds a config or writes to a dictionary that is some node's config.
\<close>

definition stored_config :: "'v world \<Rightarrow> ref \<Rightarrow> dict_ref option \<times> 'v dict option" where
  "stored_config w r = (config (heap w r), map_option (dicts w) (config (heap w r)))"


subsection \<open>Example nodes\<close>

text \<open>
  A logger that appends the line to the log, and a template processor that builds a
  new dictionary from the items of the config and of the payload and writes nothing.
\<close>

definition recording_logger ::
  "ref \<Rightarrow> 'v log_record \<Rightarrow> 'v world \<Rightarrow> raised option \<times> 'v world" where
  "recording_logger self line w = (None, w\<lparr>log := log w @ [line]\<rparr>)"

definition merging_processor ::
  "ref \<Rightarrow> dict_ref option \<Rightarrow> dict_ref \<Rightarrow> 'v world \<Rightarrow> 'v config_result \<times> 'v world" where
  "merging_processor self cfg p w =
     (Built ((case cfg of None \<Rightarrow> [] | Some d \<Rightarrow> dicts w d) @ dicts w p), w)"

definition base_code :: "'v code" where
  "base_code =
     \<lparr>update_of = BaseNode_update, setup_of = (\<lambda>self w. (None, w)), main_of = (\<lambda>self w. w),
      process_form_values = merging_processor, node_logger = recording_logger\<rparr>"

text \<open>The class of node 1 overrides \<^verbatim>\<open>update\<close> with a method that raises \<open>exn\<close>.\<close>

definition raising_code :: "raised \<Rightarrow> 'v code" where
  "raising_code exn =
     base_code\<lparr>update_of := (\<lambda>r p w. if r = 1 then (Some exn, w) else BaseNode_update r p w)\<rparr>"

text \<open>
  The class of node 1 overrides \<^verbatim>\<open>update\<close> with a method that unsubscribes the node
  from node 0 (\<^verbatim>\<open>remove_observer\<close>) and then raises an \<^verbatim>\<open>Exception\<close>.
\<close>

definition unsubscribing_code :: "'v code" where
  "unsubscribing_code =
     base_code\<lparr>update_of := (\<lambda>r p w.
        if r = 1 then (Some (Exception ''gone''), snd (remove_observer base_code 0 1 w))
        else BaseNode_update r p w)\<rparr>"

text \<open>A logging statement that raises.\<close>

definition raising_logger_code :: "'v code" where
  "raising_logger_code =
     (raising_code (Exception ''boom''))\<lparr>node_logger := (\<lambda>self line w.
        case line of ErrorNotifying cls msg \<Rightarrow> (Some (Exception ''log''), w)
                   | _ \<Rightarrow> recording_logger self line w)\<rparr>"

text \<open>
  A template processor that renders in place: it adds the payload's items to the
  dictionary it is given as the config and returns that dictionary.
\<close>

definition in_place_processor ::
  "ref \<Rightarrow> dict_ref option \<Rightarrow> dict_ref \<Rightarrow> 'v world \<Rightarrow> 'v config_result \<times> 'v world" where
  "in_place_processor self cfg p w =
     (case cfg of
        None \<Rightarrow> (Stored None, w)
      | Some d \<Rightarrow> (Stored (Some d), w\<lparr>dicts := (dicts w)(d := dicts w d @ dicts w p)\<rparr>))"

definition in_place_code :: "'v code" where
  "in_place_code = base_code\<lparr>process_form_values := in_place_processor\<rparr>"

text \<open>The class of every node has a \<^verbatim>\<open>main\<close> that empties the node's config.\<close>

definition clearing_main_code :: "'v code" where
  "clearing_main_code =
     base_code\<lparr>main_of := (\<lambda>r w.
        case config (heap w r) of
          None \<Rightarrow> w
        | Some d \<Rightarrow> w\<lparr>dicts := (dicts w)(d := [])\<rparr>)\<rparr>"

text \<open>
  Node 0 has the observers 1 and 2. Nodes 0 and 1 were built with the same dictionary
  as config (dictionary 0), node 2 with dictionary 1; dictionary 2 is a payload.
\<close>

definition plain_node :: "string \<Rightarrow> dict_ref option \<Rightarrow> BaseNode" where
  "plain_node name cfg =
     \<lparr>node_id = name, config = cfg, observers = [], pipeline = [], class_name = name\<rparr>"

definition example_world :: "string world" where
  "example_world =
     \<lparr>heap = (\<lambda>r. plain_node ''Idle'' None)
        (0 := (plain_node ''Source'' (Some 0))\<lparr>observers := [1, 2]\<rparr>,
         1 := plain_node ''Faulty'' (Some 0),
         2 := plain_node ''Sink'' (Some 1)),
      dicts = (\<lambda>d. [])
        (0 := [(''url'', ''{{ inputs.url }}'')],
         1 := [(''queue'', ''q1'')],
         2 := [(''v'', ''4'')]),
      log = [], started = []\<rparr>"


section \<open>QueueManager\<close>

text \<open>
  Modelled from the spec: the named queues the QueueManager holds. No queue service is
  part of the sources; section 4.4 of the specification gives its contract. A queue
  exists once it has been pushed to or popped from (queues are created lazily), and
  holds its entries head first.
\<close>

type_synonym 'd queues = "string \<Rightarrow> 'd list option"

text \<open>
  Modelled from the spec: what \<^verbatim>\<open>pop\<close> returns, an entry or the distinguishable
  "no data" result.
\<close>

datatype 'd pop_result = Data 'd | NoData

text \<open>Modelled from the spec: the entries of a named queue; a queue not yet created has none.\<close>

definition entries :: "'d queues \<Rightarrow> string \<Rightarrow> 'd list" where
  "entries qs queueName = (case qs queueName of None \<Rightarrow> [] | Some q \<Rightarrow> q)"

text \<open>
  Modelled from the spec: \<^verbatim>\<open>push(queueName, data)\<close> appends the data at the tail of the
  named queue.
\<close>

definition push :: "string \<Rightarrow> 'd \<Rightarrow> 'd queues \<Rightarrow> 'd queues" where
  "push queueName d qs = qs(queueName \<mapsto> entries qs queueName @ [d])"

text \<open>
  Modelled from the spec: \<^verbatim>\<open>pop(queueName, timeout)\<close> removes and returns the head
  entry. In a history of calls made one after the other nothing arrives while a pop
  waits, so a pop on an empty queue ends with "no data".
\<close>

definition pop :: "string \<Rightarrow> 'd queues \<Rightarrow> 'd pop_result \<times> 'd queues" where
  "pop queueName qs =
     (case entries qs queueName of
        [] \<Rightarrow> (NoData, qs(queueName \<mapsto> []))
      | d # rest \<Rightarrow> (Data d, qs(queueName \<mapsto> rest)))"

text \<open>Modelled from the spec: a call of the QueueManager, and the queue it names.\<close>

datatype 'd queue_op = Push string 'd | Pop string

fun queue_of :: "'d queue_op \<Rightarrow> string" where
  "queue_of (Push queueName d) = queueName"
| "queue_of (Pop queueName) = queueName"

text \<open>
  Modelled from the spec: a history of calls, made in order; the result lists what each
  pop returned, with the name it was called on.
\<close>

fun run_ops :: "'d queue_op list \<Rightarrow> 'd queues \<Rightarrow> (string \<times> 'd pop_result) list \<times> 'd queues" where
  "run_ops [] qs = ([], qs)"
| "run_ops (Push queueName d # ops) qs = run_ops ops (push queueName d qs)"
| "run_ops (Pop queueName # ops) qs =
     (let (r, qs') = pop queueName qs; (rs, qs'') = run_ops ops qs'
      in ((queueName, r) # rs, qs''))"

text \<open>The data pushed to a queue by a history, and the data popped from it, in order.\<close>

fun pushed_to :: "string \<Rightarrow> 'd queue_op list \<Rightarrow> 'd list" where
  "pushed_to q [] = []"
| "pushed_to q (Push queueName d # ops) =
     (if queueName = q then d # pushed_to q ops else pushed_to q ops)"
| "pushed_to q (Pop queueName # ops) = pushed_to q ops"

fun popped_from :: "string \<Rightarrow> (string \<times> 'd pop_result) list \<Rightarrow> 'd list" where
  "popped_from q [] = []"
| "popped_from q ((queueName, Data d) # rs) =
     (if queueName = q then d # popped_from q rs else popped_from q rs)"
| "popped_from q ((queueName, NoData) # rs) = popped_from q rs"


section \<open>LoopManager\<close>

text \<open>
  Modelled from the spec: the variant tag of a node (section 3). No LoopManager is part
  of the sources: the engine walk-through among them gives the signatures of an earlier
  engine and describes it in prose, without the bodies. The definitions of this section
  follow sections 3, 4.1 and 4.2 of the specification.
\<close>

datatype variant = Producer | Blocking | NonBlocking | ConditionalBlocking

text \<open>
  Modelled from the spec: the nodes downstream of a producer, with the edges configured
  between them. A Blocking or NonBlocking node has one configured successor or none; a
  ConditionalBlocking node has its labelled edges. A loop's chain is a finite path and
  acyclic, so it is a finite tree; a NonBlocking node may well have a successor
  configured.
\<close>

datatype 'i chain =
    BlockingNode 'i "'i chain option"
  | NonBlockingNode 'i "'i chain option"
  | ConditionalBlockingNode 'i "(string \<times> 'i chain) list"

text \<open>
  Modelled from the spec: what an invocation of \<^verbatim>\<open>execute\<close> ends with, a result or a
  failure with its description.
\<close>

datatype 'a execution = Returned 'a | Failure string

text \<open>
  Modelled from the spec: what an invocation of the producer ends with: the first
  NodeData of the iteration, the "no work" signal, or a failure.
\<close>

datatype 'd production = Produced 'd | NoWork | ProducerFailure string

text \<open>
  Modelled from the spec: the business logic of the nodes, which the LoopManager is
  given. \<open>'w\<close> is whatever the nodes act on (queues, external systems): an invocation
  is a single step that takes it and returns it changed. A ConditionalBlocking node
  returns a branch selector with its data.
\<close>

record ('i, 'd, 'w) behaviour =
  produce :: "'i \<Rightarrow> 'w \<Rightarrow> 'd production \<times> 'w"
  execute :: "'i \<Rightarrow> 'd \<Rightarrow> 'w \<Rightarrow> 'd execution \<times> 'w"
  execute_conditional :: "'i \<Rightarrow> 'd \<Rightarrow> 'w \<Rightarrow> ('d \<times> string) execution \<times> 'w"

text \<open>
  Modelled from the spec: the record of one node invocation: the node, its variant tag,
  and whether a downstream successor is configured for it.
\<close>

datatype 'i invocation = Invocation (invoked: 'i) (tag: variant) (has_successor: bool)

text \<open>
  Modelled from the spec: how a pass through the cycle ends: the end condition of step 3
  was met (with the last NodeData), the producer signalled "no work" (step 1 is
  retried), or a node failed (the failing node, the description and the current
  NodeData, which is what goes into the dead-letter record).
\<close>

datatype ('i, 'd) iteration_end =
    EndReached 'd
  | Retry
  | Failed 'i string "'d option"

text \<open>Modelled from the spec: the chains behind the edges that carry the selector.\<close>

definition selected :: "string \<Rightarrow> (string \<times> 'i chain) list \<Rightarrow> 'i chain list" where
  "selected selector edges = map snd (filter (\<lambda>e. fst e = selector) edges)"

text \<open>
  Modelled from the spec: steps 2 and 3 of the cycle. The node is invoked with the
  current NodeData; a failure ends the walk at once. After it returns the end condition
  is checked: the node is NonBlocking, or it has no configured successor. Otherwise the
  walk goes on along the configured edge with the node's result; for a
  ConditionalBlocking node the selector must map to exactly one configured edge, or the
  node has failed (unmapped branch).
\<close>

function (sequential) walk ::
  "('i, 'd, 'w) behaviour \<Rightarrow> 'i chain \<Rightarrow> 'd \<Rightarrow> 'w \<Rightarrow>
     'i invocation list \<times> ('i, 'd) iteration_end \<times> 'w" where
  "walk b (BlockingNode n successor) d w =
     (case execute b n d w of
        (Failure e, w') \<Rightarrow>
          ([Invocation n Blocking (successor \<noteq> None)], Failed n e (Some d), w')
      | (Returned d', w') \<Rightarrow>
          (case successor of
             None \<Rightarrow> ([Invocation n Blocking False], EndReached d', w')
           | Some c \<Rightarrow>
               (case walk b c d' w' of
                  (invs, r, w'') \<Rightarrow> (Invocation n Blocking True # invs, r, w''))))"
| "walk b (NonBlockingNode n successor) d w =
     (case execute b n d w of
        (Failure e, w') \<Rightarrow>
          ([Invocation n NonBlocking (successor \<noteq> None)], Failed n e (Some d), w')
      | (Returned d', w') \<Rightarrow>
          ([Invocation n NonBlocking (successor \<noteq> None)], EndReached d', w'))"
| "walk b (ConditionalBlockingNode n edges) d w =
     (case execute_conditional b n d w of
        (Failure e, w') \<Rightarrow>
          ([Invocation n ConditionalBlocking (edges \<noteq> [])], Failed n e (Some d), w')
      | (Returned (d', selector), w') \<Rightarrow>
          if edges = [] then ([Invocation n ConditionalBlocking False], EndReached d', w')
          else (case selected selector edges of
                  [c] \<Rightarrow>
                    (case walk b c d' w' of
                       (invs, r, w'') \<Rightarrow> (Invocation n ConditionalBlocking True # invs, r, w''))
                | _ \<Rightarrow>
                    ([Invocation n ConditionalBlocking True],
                     Failed n ''unmapped branch'' (Some d'), w')))"
  by pat_completeness auto
termination
proof (relation "measure (\<lambda>(b, c, d, w). size c)", goal_cases)
  case 1
  show ?case by simp
next
  case 2
  then show ?case by simp
next
  case (3 b n edges d w x w' r d' selector c cs)
  then have "c \<in> set (selected selector edges)" by simp
  then obtain l where "(l, c) \<in> set edges" by (auto simp: selected_def)
  then have "size c < Suc (size_list (size_prod (\<lambda>_. 0) size) edges)"
    by (induction edges) auto
  then show ?case by simp
qed

text \<open>Modelled from the spec: a loop, one producer and the chain downstream of it.\<close>

record 'i loop =
  producer :: 'i
  chain :: "'i chain option"

text \<open>
  Modelled from the spec: one pass through the cycle, from the invocation of the
  producer (step 1) to the end of the walk. The result lists the invocations made, in
  order.
\<close>

definition iteration ::
  "('i, 'd, 'w) behaviour \<Rightarrow> 'i loop \<Rightarrow> 'w \<Rightarrow>
     'i invocation list \<times> ('i, 'd) iteration_end \<times> 'w" where
  "iteration b l w =
     (let first = Invocation (producer l) Producer (chain l \<noteq> None)
      in case produce b (producer l) w of
           (NoWork, w') \<Rightarrow> ([first], Retry, w')
         | (ProducerFailure e, w') \<Rightarrow> ([first], Failed (producer l) e None, w')
         | (Produced d, w') \<Rightarrow>
             (case chain l of
                None \<Rightarrow> ([first], EndReached d, w')
              | Some c \<Rightarrow>
                  (case walk b c d w' of (invs, r, w'') \<Rightarrow> (first # invs, r, w''))))"

text \<open>
  A NonBlocking-or-terminal event: the invocation of a NonBlocking node, or of a node
  with no configured downstream successor.
\<close>

definition ends_chain :: "'i invocation \<Rightarrow> bool" where
  "ends_chain i = (tag i = NonBlocking \<or> \<not> has_successor i)"

text \<open>What the last invocation of a walk is, by the way the walk ended.\<close>

fun shape_ok :: "'i invocation list \<Rightarrow> ('i, 'd) iteration_end \<Rightarrow> bool" where
  "shape_ok invs (EndReached x) = (invs \<noteq> [] \<and> ends_chain (last invs))"
| "shape_ok invs Retry = False"
| "shape_ok invs (Failed n e x) = (invs \<noteq> [] \<and> invoked (last invs) = n)"

text \<open>
  The first scenario of the specification: Loop A is Producer, then Blocking(double),
  then NonBlocking(QueueWrite "q1"). The nodes act on the entries of the queue.
\<close>

definition loop_A :: "string loop" where
  "loop_A = \<lparr>producer = ''producer'',
             chain = Some (BlockingNode ''double''
                       (Some (NonBlockingNode ''queue_write'' None)))\<rparr>"

definition doubling :: "(string, nat, nat list) behaviour" where
  "doubling =
     \<lparr>produce = (\<lambda>n q. (Produced 2, q)),
      execute = (\<lambda>n d q. if n = ''double'' then (Returned (2 * d), q) else (Returned d, q @ [d])),
      execute_conditional = (\<lambda>n d q. (Failure ''not a conditional node'', q))\<rparr>"

text \<open>The third scenario: the Blocking node raises an error.\<close>

definition failing :: "(string, nat, nat list) behaviour" where
  "failing = doubling\<lparr>execute := (\<lambda>n d q. (Failure ''error'', q))\<rparr>"


chapter \<open>Properties\<close>

section \<open>Cascading form fields\<close>

subsection \<open>The loop\<close>

lemma forEach_mono:
  "forEach g xs s = Some r \<Longrightarrow>
   (\<And>x t r'. x \<in> set xs \<Longrightarrow> g x t = Some r' \<Longrightarrow> h x t = Some r') \<Longrightarrow>
   forEach h xs s = Some r"
  by (induction xs arbitrary: s) (auto split: option.splits completion.splits)

lemma forEach_returns:
  "(\<And>x t. x \<in> set xs \<Longrightarrow> \<exists>t'. g x t = Some (Returns t')) \<Longrightarrow>
   \<exists>s'. forEach g xs s = Some (Returns s')"
proof (induction xs arbitrary: s)
  case Nil
  show ?case by simp
next
  case (Cons x xs)
  from Cons.prems [of x s] obtain t where t: "g x s = Some (Returns t)" by auto
  from Cons.IH [of t] Cons.prems obtain s' where "forEach g xs t = Some (Returns s')" by auto
  with t show ?case by simp
qed

lemma forEach_not_thrown:
  "(\<And>x t e t'. x \<in> set xs \<Longrightarrow> g x t \<noteq> Some (Throws e t')) \<Longrightarrow>
   forEach g xs s \<noteq> Some (Throws e s')"
  by (induction xs arbitrary: s) (auto split: option.splits completion.splits)

lemma forEach_None:
  "x \<in> set xs \<Longrightarrow> (\<And>t. g x t = None) \<Longrightarrow>
   (\<And>y t e t'. y \<in> set xs \<Longrightarrow> g y t \<noteq> Some (Throws e t')) \<Longrightarrow>
   forEach g xs s = None"
proof (induction xs arbitrary: s)
  case Nil
  then show ?case by simp
next
  case (Cons y ys)
  show ?case
  proof (cases "g y s")
    case None
    then show ?thesis by simp
  next
    case (Some r)
    show ?thesis
    proof (cases r)
      case (Throws e t')
      with Some Cons.prems(3) [of y s e t'] show ?thesis by simp
    next
      case (Returns t)
      with Some Cons.prems(2) have "x \<noteq> y" by auto
      with Cons.prems(1) have "x \<in> set ys" by simp
      from Cons.IH [OF this Cons.prems(2), of t] Cons.prems(3) Some Returns
      show ?thesis by simp
    qed
  qed
qed

lemma forEach_Returns_all:
  "forEach g xs s = Some (Returns s') \<Longrightarrow> x \<in> set xs \<Longrightarrow> \<exists>t t'. g x t = Some (Returns t')"
proof (induction xs arbitrary: s)
  case Nil
  then show ?case by simp
next
  case (Cons y ys)
  from Cons.prems(1) obtain t where t: "g y s = Some (Returns t)"
    and rest: "forEach g ys t = Some (Returns s')"
    by (auto split: option.splits completion.splits)
  show ?case
  proof (cases "x = y")
    case True
    with t show ?thesis by blast
  next
    case False
    with Cons.prems(2) have "x \<in> set ys" by simp
    from Cons.IH [OF rest this] show ?thesis .
  qed
qed

lemma forEach_collect:
  "forEach g xs s = Some (Returns s') \<Longrightarrow>
   (\<And>x t t'. x \<in> set xs \<Longrightarrow> g x t = Some (Returns t') \<Longrightarrow> V t' = V t \<union> D x) \<Longrightarrow>
   V s' = V s \<union> (\<Union>x \<in> set xs. D x)"
proof (induction xs arbitrary: s)
  case Nil
  then show ?case by simp
next
  case (Cons x xs)
  from Cons.prems(1) obtain t where t: "g x s = Some (Returns t)"
    and rest: "forEach g xs t = Some (Returns s')"
    by (auto split: option.splits completion.splits)
  have "V t = V s \<union> D x" using Cons.prems(2) [of x s t] t by simp
  moreover have "V s' = V t \<union> (\<Union>x \<in> set xs. D x)"
    using Cons.IH [OF rest] Cons.prems(2) by simp
  ultimately show ?case by auto
qed

subsection \<open>The callback\<close>

lemma callback_mono:
  "clear_callback br f d s = Some r \<Longrightarrow> (\<And>t r'. f d t = Some r' \<Longrightarrow> g d t = Some r') \<Longrightarrow>
   clear_callback br g d s = Some r"
  by (auto simp: clear_callback_def split: prod.splits query_result.splits)

lemma callback_accepted:
  "selector_accepted br d \<Longrightarrow>
   \<exists>doc'. clear_callback br f d (visited, doc) = f d (visited @ [d], doc')"
  by (cases "querySelector br doc (field_selector d)")
     (auto simp: clear_callback_def selector_accepted_def)

lemma callback_Returns:
  "clear_callback br f d (visited, doc) = Some (Returns t) \<Longrightarrow>
   \<exists>doc'. f d (visited @ [d], doc') = Some (Returns t)"
  by (cases "querySelector br doc (field_selector d)") (auto simp: clear_callback_def)

subsection \<open>Reading the table\<close>

lemma read_cases:
  obtains ds where "or_empty_array (get_property br deps f) = Array ds"
  | "or_empty_array (get_property br deps f) = NotArray"
  by (cases "get_property br deps f") (auto simp: or_empty_array_def)

lemma read_array:
  "array_or_absent br deps f \<Longrightarrow> \<exists>ds. or_empty_array (get_property br deps f) = Array ds"
  by (cases "get_property br deps f") (auto simp: or_empty_array_def array_or_absent_def)

lemma children_Array:
  "or_empty_array (get_property br deps f) = Array ds \<Longrightarrow> depends deps `` {f} = set ds"
  by (auto simp: or_empty_array_def get_property_def depends_def
      split: option.splits js_value.splits if_splits)

lemma depends_read:
  "(f, d) \<in> depends deps \<Longrightarrow>
   \<exists>ds. or_empty_array (get_property br deps f) = Array ds \<and> d \<in> set ds"
  by (auto simp: or_empty_array_def get_property_def depends_def)

lemma finite_depends: "finite (depends deps)"
proof -
  have "depends deps \<subseteq> (\<Union>(p, v) \<in> set deps. case v of Array ds \<Rightarrow> {p} \<times> set ds | _ \<Rightarrow> {})"
    by (auto simp: depends_def dest!: map_of_SomeD)
  moreover have "finite (\<Union>(p, v) \<in> set deps. case v of Array ds \<Rightarrow> {p} \<times> set ds | _ \<Rightarrow> {})"
    by (auto split: js_value.splits)
  ultimately show ?thesis by (rule finite_subset)
qed

lemma descendants_unfold:
  "(depends deps)\<^sup>+ `` {f} =
   (\<Union>d \<in> depends deps `` {f}. {d} \<union> (depends deps)\<^sup>+ `` {d})"
proof (rule set_eqI)
  fix x
  have "x \<in> (depends deps)\<^sup>+ `` {f} \<longleftrightarrow>
        (\<exists>d. (f, d) \<in> depends deps \<and> (d, x) \<in> (depends deps)\<^sup>*)"
    by (auto dest: tranclD intro: rtrancl_into_trancl2)
  also have "\<dots> \<longleftrightarrow> (\<exists>d. (f, d) \<in> depends deps \<and> (x = d \<or> (d, x) \<in> (depends deps)\<^sup>+))"
    by (auto simp: rtrancl_eq_or_trancl)
  also have "\<dots> \<longleftrightarrow> x \<in> (\<Union>d \<in> depends deps `` {f}. {d} \<union> (depends deps)\<^sup>+ `` {d})"
    by auto
  finally show "x \<in> (depends deps)\<^sup>+ `` {f} \<longleftrightarrow>
    x \<in> (\<Union>d \<in> depends deps `` {f}. {d} \<union> (depends deps)\<^sup>+ `` {d})" .
qed

lemma child_reach:
  assumes "(f, x) \<in> depends deps"
  shows "(depends deps)\<^sup>* `` {x} \<subseteq> (depends deps)\<^sup>* `` {f}"
    and "(depends deps)\<^sup>+ `` {x} \<subseteq> (depends deps)\<^sup>+ `` {f}"
    and "x \<in> (depends deps)\<^sup>+ `` {f}"
  using assms
  by (auto intro: converse_rtrancl_into_rtrancl trancl_into_trancl2)

subsection \<open>The recursion\<close>

text \<open>More depth does not change a run that has ended.\<close>

lemma clear_depth_mono:
  "clearDependentFields br n deps f s = Some r \<Longrightarrow>
   clearDependentFields br (n + k) deps f s = Some r"
proof (induction n arbitrary: f s r)
  case 0
  then show ?case by simp
next
  case (Suc n)
  show ?case
  proof (cases "or_empty_array (get_property br deps f)")
    case (Array ds)
    with Suc.prems
    have "forEach (clear_callback br (clearDependentFields br n deps)) ds s = Some r" by simp
    then have "forEach (clear_callback br (clearDependentFields br (n + k) deps)) ds s = Some r"
      by (rule forEach_mono) (erule callback_mono, erule Suc.IH)
    with Array show ?thesis by simp
  next
    case Falsy
    with Suc.prems show ?thesis by simp
  next
    case NotArray
    with Suc.prems show ?thesis by simp
  qed
qed

text \<open>
  On an acyclic table some depth suffices for every start state, by well-founded
  induction along the dependency relation: the depth needed for a field is one more
  than the greatest depth needed for its dependents.
\<close>

lemma clear_returns:
  assumes "acyclic (depends deps)"
  shows "(\<forall>n \<in> (depends deps)\<^sup>* `` {f}. array_or_absent br deps n) \<Longrightarrow>
         (\<forall>n \<in> (depends deps)\<^sup>+ `` {f}. selector_accepted br n) \<Longrightarrow>
         \<exists>k. \<forall>s. \<exists>s'. clearDependentFields br k deps f s = Some (Returns s')"
proof -
  have wf: "wf ((depends deps)\<inverse>)"
    using finite_depends assms by (rule finite_acyclic_wf_converse)
  show "(\<forall>n \<in> (depends deps)\<^sup>* `` {f}. array_or_absent br deps n) \<Longrightarrow>
        (\<forall>n \<in> (depends deps)\<^sup>+ `` {f}. selector_accepted br n) \<Longrightarrow>
        \<exists>k. \<forall>s. \<exists>s'. clearDependentFields br k deps f s = Some (Returns s')"
  proof (induction f rule: wf_induct_rule [OF wf])
    case (1 f)
    have "array_or_absent br deps f" using "1.prems"(1) by auto
    from read_array [OF this] obtain ds
      where arr: "or_empty_array (get_property br deps f) = Array ds" by blast
    have kids: "depends deps `` {f} = set ds" by (rule children_Array [OF arr])
    have child: "\<exists>k. \<forall>s. \<exists>s'. clearDependentFields br k deps d s = Some (Returns s')"
      if d: "d \<in> set ds" for d
    proof -
      from d kids have e: "(f, d) \<in> depends deps" by auto
      from child_reach(1,2) [OF e] "1.IH" [of d] e "1.prems" show ?thesis by blast
    qed
    then obtain N where N: "\<And>d. d \<in> set ds \<Longrightarrow>
        \<forall>s. \<exists>s'. clearDependentFields br (N d) deps d s = Some (Returns s')"
      by metis
    define M where "M = Max (N ` set ds)"
    have M: "\<exists>s'. clearDependentFields br M deps d s = Some (Returns s')"
      if d: "d \<in> set ds" for d s
    proof -
      from N [OF d] obtain s' where
        s': "clearDependentFields br (N d) deps d s = Some (Returns s')" by blast
      have "N d \<le> M" unfolding M_def using d by (intro Max_ge) auto
      then obtain k where "M = N d + k" using le_Suc_ex by blast
      with clear_depth_mono [OF s', of k] show ?thesis by auto
    qed
    have "\<exists>s'. clearDependentFields br (Suc M) deps f s = Some (Returns s')" for s
    proof -
      have "\<exists>s'. forEach (clear_callback br (clearDependentFields br M deps)) ds s
          = Some (Returns s')"
      proof (rule forEach_returns)
        fix x and t :: "'a clear_state"
        assume x: "x \<in> set ds"
        obtain vis doc where t: "t = (vis, doc)" by (cases t)
        from x kids have "(f, x) \<in> depends deps" by auto
        with "1.prems"(2) have "selector_accepted br x" by auto
        from callback_accepted [OF this, of "clearDependentFields br M deps" vis doc]
        obtain doc' where "clear_callback br (clearDependentFields br M deps) x (vis, doc)
            = clearDependentFields br M deps x (vis @ [x], doc')" by blast
        with M [OF x, of "(vis @ [x], doc')"] t
        show "\<exists>t'. clear_callback br (clearDependentFields br M deps) x t = Some (Returns t')"
          by simp
      qed
      with arr show ?thesis by simp
    qed
    then show ?case by blast
  qed
qed

text \<open>
  A run that returns has called the callback for exactly the fields that depend on the
  start field, directly or through other fields.
\<close>

lemma clear_visits:
  "clearDependentFields br n deps f s = Some (Returns s') \<Longrightarrow>
   set (fst s') = set (fst s) \<union> (depends deps)\<^sup>+ `` {f}"
proof (induction n arbitrary: f s s')
  case 0
  then show ?case by simp
next
  case (Suc n)
  show ?case
  proof (cases rule: read_cases [of br deps f])
    case 2
    with Suc.prems show ?thesis by simp
  next
    case (1 ds)
    with Suc.prems
    have run: "forEach (clear_callback br (clearDependentFields br n deps)) ds s
        = Some (Returns s')"
      by simp
    have "set (fst s') = set (fst s) \<union> (\<Union>d \<in> set ds. {d} \<union> (depends deps)\<^sup>+ `` {d})"
    proof (rule forEach_collect [OF run])
      fix x and t t' :: "'a clear_state"
      assume g: "clear_callback br (clearDependentFields br n deps) x t = Some (Returns t')"
      obtain vis doc where t: "t = (vis, doc)" by (cases t)
      from g t have "clear_callback br (clearDependentFields br n deps) x (vis, doc)
          = Some (Returns t')" by simp
      from callback_Returns [OF this] obtain doc'
        where "clearDependentFields br n deps x (vis @ [x], doc') = Some (Returns t')"
        by blast
      from Suc.IH [OF this] t
      show "set (fst t') = set (fst t) \<union> ({x} \<union> (depends deps)\<^sup>+ `` {x})"
        by simp
    qed
    also have "(\<Union>d \<in> set ds. {d} \<union> (depends deps)\<^sup>+ `` {d}) = (depends deps)\<^sup>+ `` {f}"
      using children_Array [OF 1] descendants_unfold [of deps f] by simp
    finally show ?thesis .
  qed
qed

lemma clear_not_thrown:
  "(\<forall>n \<in> (depends deps)\<^sup>* `` {f}. array_or_absent br deps n) \<Longrightarrow>
   (\<forall>n \<in> (depends deps)\<^sup>+ `` {f}. selector_accepted br n) \<Longrightarrow>
   clearDependentFields br k deps f s \<noteq> Some (Throws e s')"
proof (induction k arbitrary: f s e s')
  case 0
  show ?case by simp
next
  case (Suc k)
  have "array_or_absent br deps f" using Suc.prems(1) by auto
  from read_array [OF this] obtain ds
    where arr: "or_empty_array (get_property br deps f) = Array ds" by blast
  have kids: "depends deps `` {f} = set ds" by (rule children_Array [OF arr])
  have "forEach (clear_callback br (clearDependentFields br k deps)) ds s
      \<noteq> Some (Throws e s')"
  proof (rule forEach_not_thrown)
    fix x and t :: "'a clear_state" and e' t'
    assume x: "x \<in> set ds"
    obtain vis doc where t: "t = (vis, doc)" by (cases t)
    from x kids have ed: "(f, x) \<in> depends deps" by auto
    then have acc: "selector_accepted br x" using Suc.prems(2) by auto
    have r1: "\<forall>n \<in> (depends deps)\<^sup>* `` {x}. array_or_absent br deps n"
      using child_reach(1) [OF ed] Suc.prems(1) by blast
    have r2: "\<forall>n \<in> (depends deps)\<^sup>+ `` {x}. selector_accepted br n"
      using child_reach(2) [OF ed] Suc.prems(2) by blast
    from callback_accepted [OF acc, of "clearDependentFields br k deps" vis doc]
    obtain doc' where "clear_callback br (clearDependentFields br k deps) x (vis, doc)
        = clearDependentFields br k deps x (vis @ [x], doc')" by blast
    with Suc.IH [OF r1 r2] t
    show "clear_callback br (clearDependentFields br k deps) x t \<noteq> Some (Throws e' t')"
      by simp
  qed
  with arr show ?case by simp
qed

lemma cycle_child:
  assumes "(f, c) \<in> (depends deps)\<^sup>*" and "(c, c) \<in> (depends deps)\<^sup>+"
  shows "\<exists>ds d. or_empty_array (get_property br deps f) = Array ds \<and> d \<in> set ds \<and>
    (f, d) \<in> depends deps \<and> (d, c) \<in> (depends deps)\<^sup>*"
proof -
  have "(f, c) \<in> (depends deps)\<^sup>+"
    using assms by (metis rtrancl_eq_or_trancl)
  then obtain d where d: "(f, d) \<in> depends deps" "(d, c) \<in> (depends deps)\<^sup>*"
    by (auto dest: tranclD)
  from depends_read [OF d(1), of br] d show ?thesis by blast
qed

text \<open>
  When a cycle can be reached from the start field, no depth suffices: at every depth
  the run is cut off inside the call for a dependent from which the cycle can still be
  reached.
\<close>

lemma clear_cycle_None:
  "(f, c) \<in> (depends deps)\<^sup>* \<Longrightarrow> (c, c) \<in> (depends deps)\<^sup>+ \<Longrightarrow>
   (\<forall>n \<in> (depends deps)\<^sup>* `` {f}. array_or_absent br deps n) \<Longrightarrow>
   (\<forall>n \<in> (depends deps)\<^sup>+ `` {f}. selector_accepted br n) \<Longrightarrow>
   clearDependentFields br k deps f s = None"
proof (induction k arbitrary: f s)
  case 0
  show ?case by simp
next
  case (Suc k)
  from cycle_child [OF Suc.prems(1,2), of br] obtain ds d
    where ds: "or_empty_array (get_property br deps f) = Array ds" and d: "d \<in> set ds"
      and dc: "(d, c) \<in> (depends deps)\<^sup>*"
    by blast
  have kids: "depends deps `` {f} = set ds" by (rule children_Array [OF ds])
  have sub: "\<forall>n \<in> (depends deps)\<^sup>* `` {x}. array_or_absent br deps n"
      "\<forall>n \<in> (depends deps)\<^sup>+ `` {x}. selector_accepted br n"
      "selector_accepted br x"
    if "x \<in> set ds" for x
  proof -
    from that kids have ed: "(f, x) \<in> depends deps" by auto
    show "\<forall>n \<in> (depends deps)\<^sup>* `` {x}. array_or_absent br deps n"
      using child_reach(1) [OF ed] Suc.prems(3) by blast
    show "\<forall>n \<in> (depends deps)\<^sup>+ `` {x}. selector_accepted br n"
      using child_reach(2) [OF ed] Suc.prems(4) by blast
    show "selector_accepted br x" using child_reach(3) [OF ed] Suc.prems(4) by blast
  qed
  have call: "\<exists>doc'. clear_callback br (clearDependentFields br k deps) x t
      = clearDependentFields br k deps x (fst t @ [x], doc')"
    if "x \<in> set ds" for x and t :: "'a clear_state"
    using callback_accepted [OF sub(3) [OF that], of "clearDependentFields br k deps" "fst t" "snd t"]
    by simp
  have "forEach (clear_callback br (clearDependentFields br k deps)) ds s = None"
  proof (rule forEach_None [OF d])
    fix t :: "'a clear_state"
    from call [OF d, of t] obtain doc' where
      "clear_callback br (clearDependentFields br k deps) d t
        = clearDependentFields br k deps d (fst t @ [d], doc')" by blast
    with Suc.IH [OF dc Suc.prems(2) sub(1,2) [OF d], of "(fst t @ [d], doc')"]
    show "clear_callback br (clearDependentFields br k deps) d t = None" by simp
  next
    fix y and t :: "'a clear_state" and e t'
    assume y: "y \<in> set ds"
    from call [OF y, of t] obtain doc' where
      "clear_callback br (clearDependentFields br k deps) y t
        = clearDependentFields br k deps y (fst t @ [y], doc')" by blast
    with clear_not_thrown [OF sub(1,2) [OF y], of k "(fst t @ [y], doc')" e t']
    show "clear_callback br (clearDependentFields br k deps) y t \<noteq> Some (Throws e t')"
      by simp
  qed
  with ds show ?case by simp
qed

text \<open>
  Whatever the names and the selector engine, a run from which a cycle can be reached
  never returns: it is cut off at every depth, or it throws.
\<close>

lemma clear_cycle_never_returns:
  "(f, c) \<in> (depends deps)\<^sup>* \<Longrightarrow> (c, c) \<in> (depends deps)\<^sup>+ \<Longrightarrow>
   clearDependentFields br k deps f s \<noteq> Some (Returns s')"
proof (induction k arbitrary: f s s')
  case 0
  show ?case by simp
next
  case (Suc k)
  from cycle_child [OF Suc.prems(1,2), of br] obtain ds d
    where ds: "or_empty_array (get_property br deps f) = Array ds" and d: "d \<in> set ds"
      and dc: "(d, c) \<in> (depends deps)\<^sup>*"
    by blast
  show ?case
  proof
    assume "clearDependentFields br (Suc k) deps f s = Some (Returns s')"
    with ds have "forEach (clear_callback br (clearDependentFields br k deps)) ds s
        = Some (Returns s')"
      by simp
    from forEach_Returns_all [OF this d] obtain t t'
      where "clear_callback br (clearDependentFields br k deps) d t = Some (Returns t')"
      by blast
    then have "clear_callback br (clearDependentFields br k deps) d (fst t, snd t)
        = Some (Returns t')" by simp
    from callback_Returns [OF this] obtain doc'
      where "clearDependentFields br k deps d (fst t @ [d], doc') = Some (Returns t')"
      by blast
    with Suc.IH [OF dc Suc.prems(2), of "(fst t @ [d], doc')" t'] show False by simp
  qed
qed

text \<open>
  Claim C10, as amended. Let every field that can be reached from the given field read
  from the table as an array or as nothing (no reachable name is found on
  \<^verbatim>\<open>Object.prototype\<close> or holds a truthy value that is not an array), and let the selector
  engine accept the selector built from every field that depends on the given field.
  Then for an acyclic dependency relation \<^verbatim>\<open>clearDependentFields(field)\<close> returns, at some
  depth of nested calls, and the fields it has visited are exactly the fields that depend
  on the given field, directly or through other fields; and when a cycle can be reached
  from the given field the call does not end: no depth of nested calls suffices,
  whatever the state it starts in.
\<close>

theorem clearDependentFields_acyclic_or_cycle:
  assumes "\<forall>n \<in> (depends deps)\<^sup>* `` {field}. array_or_absent br deps n"
    and "\<forall>n \<in> (depends deps)\<^sup>+ `` {field}. selector_accepted br n"
  shows "(acyclic (depends deps) \<longrightarrow>
      (\<exists>depth visited doc'.
          clearDependentFields br depth deps field ([], doc) = Some (Returns (visited, doc')) \<and>
          set visited = {d. (field, d) \<in> (depends deps)\<^sup>+})) \<and>
   ((\<exists>c. (field, c) \<in> (depends deps)\<^sup>* \<and> (c, c) \<in> (depends deps)\<^sup>+) \<longrightarrow>
      (\<forall>depth s. clearDependentFields br depth deps field s = None))"
proof (intro conjI impI)
  assume "acyclic (depends deps)"
  from clear_returns [OF this assms] obtain n s'
    where s': "clearDependentFields br n deps field ([], doc) = Some (Returns s')" by blast
  from clear_visits [OF s'] have "set (fst s') = {d. (field, d) \<in> (depends deps)\<^sup>+}"
    by auto
  with s' show "\<exists>depth visited doc'.
          clearDependentFields br depth deps field ([], doc) = Some (Returns (visited, doc')) \<and>
          set visited = {d. (field, d) \<in> (depends deps)\<^sup>+}"
    by (cases s') auto
next
  assume "\<exists>c. (field, c) \<in> (depends deps)\<^sup>* \<and> (c, c) \<in> (depends deps)\<^sup>+"
  then obtain c where "(field, c) \<in> (depends deps)\<^sup>*" "(c, c) \<in> (depends deps)\<^sup>+" by blast
  from clear_cycle_None [OF this assms]
  show "\<forall>depth s. clearDependentFields br depth deps field s = None" by blast
qed

subsection \<open>The example page\<close>

lemma reach_subset:
  assumes "f \<in> S" and "\<And>p d. p \<in> S \<Longrightarrow> (p, d) \<in> depends deps \<Longrightarrow> d \<in> S"
  shows "(depends deps)\<^sup>* `` {f} \<subseteq> S"
proof
  fix x assume "x \<in> (depends deps)\<^sup>* `` {f}"
  then have "(f, x) \<in> (depends deps)\<^sup>*" by simp
  then show "x \<in> S" using assms by (induction rule: rtrancl_induct) auto
qed

lemma strip_prefix_append: "strip_prefix p (p @ s) = Some s"
  by (induction p) simp_all

lemma selector_value_field_selector: "selector_value (field_selector v) = Some v"
proof -
  have "strip_prefix (''[data-field-name='' @ [CHR 0x22]) (field_selector v)
      = Some (v @ [CHR 0x22] @ '']'')"
    using strip_prefix_append [of "''[data-field-name='' @ [CHR 0x22]" "v @ [CHR 0x22] @ '']''"]
    by (simp add: field_selector_def)
  moreover have "strip_prefix (rev ([CHR 0x22] @ '']'')) (rev (v @ [CHR 0x22] @ '']''))
      = Some (rev v)"
    using strip_prefix_append [of "rev ([CHR 0x22] @ '']'')" "rev v"] by simp
  ultimately show ?thesis by (simp add: selector_value_def)
qed

lemma form_page_accepts: "plain_value name \<Longrightarrow> selector_accepted form_page name"
  by (simp add: selector_accepted_def form_page_def selector_value_field_selector
      split: option.splits prod.splits)

lemma form_page_query:
  "querySelector form_page doc (field_selector v) =
     (if plain_value v
      then (case find (\<lambda>(name, tag_name, html). name = v) doc of
              None \<Rightarrow> NoMatch
            | Some (name, tag_name, html) \<Rightarrow> Match name)
      else Invalid)"
  by (simp add: form_page_def selector_value_field_selector)

lemmas form_page_simps = form_page_query plain_value_def clear_callback_def
  or_empty_array_def get_property_def standard_inherited_def

lemma form_page_fields [simp]:
  "inherited form_page = standard_inherited"
  "tagName form_page doc el =
     (case find (\<lambda>(name, tag_name, html). name = el) doc of
        None \<Rightarrow> []
      | Some (name, tag_name, html) \<Rightarrow> tag_name)"
  "set_innerHTML form_page = set_html"
  by (simp_all add: form_page_def)

text \<open>
  On the table \<^verbatim>\<open>{country: [state], state: [city]}\<close> and a page with a \<^verbatim>\<open>SELECT\<close> for
  the state and an \<^verbatim>\<open>INPUT\<close> for the city, clearing from the country visits the state
  and the city and resets the state.
\<close>

lemma country_run:
  "clearDependentFields form_page 3 address_table ''country''
     ([], [(''state'', ''SELECT'', ''<option>Goa</option>''), (''city'', ''INPUT'', [])])
   = Some (Returns ([''state'', ''city''],
        [(''state'', ''SELECT'', select_placeholder), (''city'', ''INPUT'', [])]))"
  by (simp add: numeral_3_eq_3 form_page_simps address_table_def)

theorem clearDependentFields_witness:
  "acyclic (depends address_table) \<and>
   (\<exists>depth visited doc'.
      clearDependentFields form_page depth address_table
        ''country'' ([], [(''state'', ''SELECT'', []), (''city'', ''SELECT'', [])])
        = Some (Returns (visited, doc')) \<and>
      set visited = {d. (''country'', d) \<in> (depends address_table)\<^sup>+}) \<and>
   (\<exists>c. (''a'', c) \<in> (depends looping_table)\<^sup>* \<and> (c, c) \<in> (depends looping_table)\<^sup>+) \<and>
   (\<forall>depth s. clearDependentFields form_page depth looping_table ''a'' s = None)"
proof -
  have "(depends address_table)\<inverse> \<subseteq> measure length"
    by (auto simp: depends_def address_table_def split: if_splits)
  then have "wf ((depends address_table)\<inverse>)"
    by (rule wf_subset [OF wf_measure])
  then have acyc: "acyclic (depends address_table)"
    using wf_acyclic acyclic_converse by blast
  have "(depends address_table)\<^sup>* `` {''country''} \<subseteq> {''country'', ''state'', ''city''}"
    by (rule reach_subset) (auto simp: depends_def address_table_def split: if_splits)
  moreover have "\<forall>n \<in> {''country'', ''state'', ''city''}. array_or_absent form_page address_table n"
    by (simp add: array_or_absent_def get_property_def standard_inherited_def address_table_def)
  ultimately
  have t1: "\<forall>n \<in> (depends address_table)\<^sup>* `` {''country''}. array_or_absent form_page address_table n"
    by blast
  have "(depends address_table)\<^sup>+ `` {''country''} \<subseteq> {''country'', ''state'', ''city''}"
    using \<open>(depends address_table)\<^sup>* `` {''country''} \<subseteq> {''country'', ''state'', ''city''}\<close>
    by (auto dest: trancl_into_rtrancl)
  moreover have "\<forall>n \<in> {''country'', ''state'', ''city''}. selector_accepted form_page n"
    by (simp add: form_page_accepts plain_value_def)
  ultimately
  have t2: "\<forall>n \<in> (depends address_table)\<^sup>+ `` {''country''}. selector_accepted form_page n"
    by blast
  have reach: "(depends looping_table)\<^sup>* `` {''a''} \<subseteq> {''a'', ''b''}"
    by (rule reach_subset) (auto simp: depends_def looping_table_def split: if_splits)
  moreover have "\<forall>n \<in> {''a'', ''b''}. array_or_absent form_page looping_table n"
    by (simp add: array_or_absent_def get_property_def standard_inherited_def looping_table_def)
  ultimately
  have l1: "\<forall>n \<in> (depends looping_table)\<^sup>* `` {''a''}. array_or_absent form_page looping_table n"
    by blast
  have "(depends looping_table)\<^sup>+ `` {''a''} \<subseteq> {''a'', ''b''}"
    using reach by (auto dest: trancl_into_rtrancl)
  moreover have "\<forall>n \<in> {''a'', ''b''}. selector_accepted form_page n"
    by (simp add: form_page_accepts plain_value_def)
  ultimately
  have l2: "\<forall>n \<in> (depends looping_table)\<^sup>+ `` {''a''}. selector_accepted form_page n"
    by blast
  have ab: "(''a'', ''b'') \<in> depends looping_table" and ba: "(''b'', ''a'') \<in> depends looping_table"
    by (simp_all add: depends_def looping_table_def)
  have cyc: "\<exists>c. (''a'', c) \<in> (depends looping_table)\<^sup>* \<and> (c, c) \<in> (depends looping_table)\<^sup>+"
    using ab ba by (blast intro: trancl_trans)
  from acyc cyc
    clearDependentFields_acyclic_or_cycle [OF t1 t2]
    clearDependentFields_acyclic_or_cycle [OF l1 l2]
  show ?thesis by blast
qed

text \<open>
  Two acyclic tables on which the call does not return. In
  \<^verbatim>\<open>{country: [constructor, state]}\<close> the state depends on the country; the nested call
  for \<^verbatim>\<open>constructor\<close> reads \<^verbatim>\<open>Object.prototype.constructor\<close>, a function, and calling
  \<^verbatim>\<open>forEach\<close> on it throws a \<^verbatim>\<open>TypeError\<close> before the state is visited. In
  \<^verbatim>\<open>{country: ['a"b', state]}\<close> the selector built for the first name is refused with a
  \<^verbatim>\<open>SyntaxError\<close>, again before the state is visited.
\<close>

lemma acyclic_single_parent:
  "acyclic (depends [(p, Array ds)])" if "p \<notin> set ds"
proof -
  have "(depends [(p, Array ds)])\<inverse> \<subseteq> measure (\<lambda>n. if n = p then 1 else 0)"
    using that by (auto simp: depends_def split: if_splits)
  then have "wf ((depends [(p, Array ds)])\<inverse>)"
    by (rule wf_subset [OF wf_measure])
  then show ?thesis
    using wf_acyclic acyclic_converse by blast
qed

theorem clearDependentFields_throws_counterexample:
  "acyclic (depends constructor_table) \<and>
   (''country'', ''state'') \<in> (depends constructor_table)\<^sup>+ \<and>
   clearDependentFields form_page 2 constructor_table ''country'' ([], [])
     = Some (Throws TypeError ([''constructor''], [])) \<and>
   acyclic (depends quoted_table) \<and>
   (''country'', ''state'') \<in> (depends quoted_table)\<^sup>+ \<and>
   clearDependentFields form_page 2 quoted_table ''country'' ([], [])
     = Some (Throws SyntaxError ([''a'' @ [CHR 0x22] @ ''b''], []))"
proof (intro conjI)
  show "acyclic (depends constructor_table)"
    unfolding constructor_table_def by (rule acyclic_single_parent) simp
  show "acyclic (depends quoted_table)"
    unfolding quoted_table_def by (rule acyclic_single_parent) simp
  show "(''country'', ''state'') \<in> (depends constructor_table)\<^sup>+"
    by (rule r_into_trancl) (simp add: depends_def constructor_table_def)
  show "(''country'', ''state'') \<in> (depends quoted_table)\<^sup>+"
    by (rule r_into_trancl) (simp add: depends_def quoted_table_def)
  show "clearDependentFields form_page 2 constructor_table ''country'' ([], [])
     = Some (Throws TypeError ([''constructor''], []))"
    by (simp add: numeral_2_eq_2 form_page_simps constructor_table_def)
  show "clearDependentFields form_page 2 quoted_table ''country'' ([], [])
     = Some (Throws SyntaxError ([''a'' @ [CHR 0x22] @ ''b''], []))"
    by (simp add: numeral_2_eq_2 form_page_simps quoted_table_def)
qed

text \<open>
  At every greater depth the two runs throw in the same way (\<open>clear_depth_mono\<close>); with
  less depth they are cut off.
\<close>

lemma constructor_table_every_depth:
  "clearDependentFields form_page depth constructor_table ''country'' ([], [])
     \<in> {None, Some (Throws TypeError ([''constructor''], []))}"
proof (cases "depth < 2")
  case True
  then have "depth = 0 \<or> depth = Suc 0" by auto
  then show ?thesis
    by (auto simp: form_page_simps constructor_table_def)
next
  case False
  have two: "clearDependentFields form_page 2 constructor_table ''country'' ([], [])
      = Some (Throws TypeError ([''constructor''], []))"
    by (simp add: numeral_2_eq_2 form_page_simps constructor_table_def)
  from False obtain k where "depth = 2 + k" using le_Suc_ex [of 2 depth] by auto
  with clear_depth_mono [OF two, of k] show ?thesis by simp
qed

text \<open>
  With such a name in it, a table with a cycle need not run forever either: the call
  throws.
\<close>

lemma cycle_may_throw:
  "(''a'', ''a'') \<in> (depends [(''a'', Array [''toString'', ''a''])])\<^sup>+ \<and>
   clearDependentFields form_page 2 [(''a'', Array [''toString'', ''a''])] ''a'' ([], [])
     = Some (Throws TypeError ([''toString''], []))"
  by (auto simp: numeral_2_eq_2 form_page_simps depends_def)

section \<open>BaseNode\<close>

subsection \<open>The loop over the observers\<close>

lemma notify_loop_end:
  "\<not> i < length (observers (heap w self)) \<Longrightarrow>
   notify_loop c self p i delivered w = Some (None, delivered, w)"
  by (subst notify_loop.simps) simp

lemma notify_loop_step:
  "i < length (observers (heap w self)) \<Longrightarrow>
   notify_loop c self payload i delivered w =
     (let observer = observers (heap w self) ! i;
          delivered' = delivered @ [(observer, payload)]
      in case update_of c observer payload w of
           (None, w') \<Rightarrow> notify_loop c self payload (Suc i) delivered' w'
         | (Some (Exception msg), w') \<Rightarrow>
             (case node_logger c self (ErrorNotifying (class_name (heap w' observer)) msg) w' of
                (None, w'') \<Rightarrow> notify_loop c self payload (Suc i) delivered' w''
              | (Some exn, w'') \<Rightarrow> Some (Some exn, delivered', w''))
         | (Some (ExceptionStrRaises exn), w') \<Rightarrow> Some (Some exn, delivered', w')
         | (Some exn, w') \<Rightarrow> Some (Some exn, delivered', w'))"
  by (subst notify_loop.simps) simp

text \<open>
  When no \<^verbatim>\<open>update\<close> and no logging statement changes the list being iterated, and
  every \<^verbatim>\<open>update\<close> returns or raises an \<^verbatim>\<open>Exception\<close> with a working \<^verbatim>\<open>str\<close>, the loop
  started at index \<open>i\<close> ends, having called the observers from \<open>i\<close> on, in order.
\<close>

lemma notify_loop_delivers:
  assumes U: "\<forall>r \<in> set obs. \<forall>w.
        (fst (update_of c r p w) = None \<or> (\<exists>msg. fst (update_of c r p w) = Some (Exception msg))) \<and>
        observers (heap (snd (update_of c r p w)) self) = observers (heap w self)"
    and L: "\<forall>line w. fst (node_logger c self line w) = None \<and>
        observers (heap (snd (node_logger c self line w)) self) = observers (heap w self)"
  shows "observers (heap w self) = obs \<Longrightarrow> i \<le> length obs \<Longrightarrow>
    \<exists>w'. notify_loop c self p i delivered w
       = Some (None, delivered @ map (\<lambda>r. (r, p)) (drop i obs), w')"
proof (induction "length obs - i" arbitrary: i delivered w)
  case 0
  then show ?case by (simp add: notify_loop_end)
next
  case (Suc k)
  then have lt: "i < length obs" by simp
  let ?ob = "obs ! i"
  let ?d = "delivered @ [(?ob, p)]"
  have mem: "?ob \<in> set obs" using lt by simp
  obtain e w1 where u: "update_of c ?ob p w = (e, w1)" by (cases "update_of c ?ob p w")
  from U mem u have e: "e = None \<or> (\<exists>msg. e = Some (Exception msg))"
    and o1: "observers (heap w1 self) = obs"
    using Suc.prems(1) by (auto dest!: bspec [where x = ?ob] spec [where x = w])
  have drop: "?d @ map (\<lambda>r. (r, p)) (drop (Suc i) obs)
      = delivered @ map (\<lambda>r. (r, p)) (drop i obs)"
    using lt by (simp add: Cons_nth_drop_Suc [symmetric])
  have k: "k = length obs - Suc i" using Suc.hyps(2) by simp
  from e show ?case
  proof
    assume "e = None"
    with Suc.hyps(1) [OF k o1, of ?d] lt u Suc.prems(1) drop show ?thesis
      by (simp add: notify_loop_step)
  next
    assume "\<exists>msg. e = Some (Exception msg)"
    then obtain msg where msg: "e = Some (Exception msg)" by blast
    let ?line = "ErrorNotifying (class_name (heap w1 ?ob)) msg"
    obtain e2 w2 where l: "node_logger c self ?line w1 = (e2, w2)"
      by (cases "node_logger c self ?line w1")
    from L l o1 have "e2 = None" and o2: "observers (heap w2 self) = obs"
      by (auto dest!: spec [where x = ?line] spec [where x = w1])
    with Suc.hyps(1) [OF k o2, of ?d] lt u Suc.prems(1) drop msg l show ?thesis
      by (simp add: notify_loop_step)
  qed
qed

text \<open>
  Claim C9, as amended. For every node, every list of observers and every non-empty
  payload: if each registered observer's \<^verbatim>\<open>update\<close> either returns or raises an instance
  of \<^verbatim>\<open>Exception\<close> whose \<^verbatim>\<open>str\<close> does not raise, no \<^verbatim>\<open>update\<close> and no logging statement
  changes the notifying node's list of observers, and the logging statements return,
  then \<^verbatim>\<open>_notify_observers\<close> returns normally (nothing reaches the caller) having called
  \<^verbatim>\<open>update\<close> with the payload on every registered observer, in the order of the list
  and once for each entry; an \<^verbatim>\<open>Exception\<close> from one observer does not keep the later
  ones from being notified.
\<close>

theorem notify_observers_delivers:
  assumes "truthy w (Some payload)"
    and "\<forall>r \<in> set (observers (heap w self)). \<forall>w'.
        (fst (update_of c r payload w') = None \<or>
         (\<exists>msg. fst (update_of c r payload w') = Some (Exception msg))) \<and>
        observers (heap (snd (update_of c r payload w')) self) = observers (heap w' self)"
    and "\<forall>line w'. fst (node_logger c self line w') = None \<and>
        observers (heap (snd (node_logger c self line w')) self) = observers (heap w' self)"
  shows "\<exists>w'. notify_observers c self (Some payload) w =
           Some (None, map (\<lambda>r. (r, payload)) (observers (heap w self)), w')"
proof -
  let ?line = "Broadcasting (class_name (heap w self)) (dicts w payload)"
  from assms(1) have ne: "dicts w payload \<noteq> []" by (simp add: truthy_def)
  obtain e w1 where l: "node_logger c self ?line w = (e, w1)"
    by (cases "node_logger c self ?line w")
  from assms(3) l have e: "e = None" and o: "observers (heap w1 self) = observers (heap w self)"
    by (auto dest!: spec [where x = ?line] spec [where x = w])
  from notify_loop_delivers [OF assms(2,3) o, of 0 "[]"]
  obtain w' where "notify_loop c self payload 0 [] w1
      = Some (None, map (\<lambda>r. (r, payload)) (observers (heap w self)), w')"
    by auto
  with ne l e show ?thesis by (auto simp: notify_observers_def)
qed

lemmas example_defs = example_world_def plain_node_def base_code_def raising_code_def
  unsubscribing_code_def raising_logger_code_def clearing_main_code_def in_place_code_def in_place_processor_def
  recording_logger_def merging_processor_def BaseNode_update_def notify_observers_def
  remove_observer_def

text \<open>
  Node 0 notifies the observers 1 and 2; the \<^verbatim>\<open>update\<close> of node 1 raises
  \<^verbatim>\<open>Exception('boom')\<close>. Both are called and the call returns normally.
\<close>

theorem notify_observers_delivers_witness:
  "truthy example_world (Some 2) \<and>
   (\<exists>w'. notify_observers (raising_code (Exception ''boom'')) 0 (Some 2) example_world
      = Some (None, [(1, 2), (2, 2)], w'))"
proof -
  let ?c = "raising_code (Exception ''boom'') :: string code"
  have h1: "truthy example_world (Some 2)" by (simp add: truthy_def example_world_def)
  have h2: "\<forall>r \<in> set (observers (heap example_world 0)). \<forall>w'.
        (fst (update_of ?c r 2 w') = None \<or>
         (\<exists>msg. fst (update_of ?c r 2 w') = Some (Exception msg))) \<and>
        observers (heap (snd (update_of ?c r 2 w')) 0) = observers (heap w' 0)"
    by (simp add: example_defs)
  have h3: "\<forall>line w'. fst (node_logger ?c 0 line w') = None \<and>
        observers (heap (snd (node_logger ?c 0 line w')) 0) = observers (heap w' 0)"
    by (simp add: example_defs)
  from notify_observers_delivers [OF h1 h2 h3] h1 show ?thesis
    by (simp add: example_world_def plain_node_def)
qed

text \<open>
  Three runs in which an observer's \<^verbatim>\<open>update\<close> raises and the payload does not reach
  every registered observer. Node 0 has the observers 1 and 2 and notifies them of
  payload 2, which is not empty. When the \<^verbatim>\<open>update\<close> of node 1 raises
  \<^verbatim>\<open>KeyboardInterrupt\<close>, the handler does not catch it: it reaches the caller and node 2
  is never called. When it raises an \<^verbatim>\<open>Exception\<close> whose \<^verbatim>\<open>__str__\<close> raises, the handler's
  \<^verbatim>\<open>str(e)\<close> raises in turn, with the same outcome. When it unsubscribes node 1 from
  node 0 and then raises an \<^verbatim>\<open>Exception\<close>, the exception is caught and the call returns
  normally, but the list has become \<^verbatim>\<open>[2]\<close> and the iterator's index is 1: node 2 is
  skipped.
\<close>

theorem notify_observers_base_exception_counterexample:
  "observers (heap example_world 0) = [1, 2] \<and> truthy example_world (Some 2) \<and>
   map_option fst (notify_observers (raising_code KeyboardInterrupt) 0 (Some 2) example_world)
     = Some (Some KeyboardInterrupt) \<and>
   map_option (fst \<circ> snd)
     (notify_observers (raising_code KeyboardInterrupt) 0 (Some 2) example_world)
     = Some [(1, 2)] \<and>
   map_option fst
     (notify_observers (raising_code (ExceptionStrRaises (Exception ''bad str''))) 0 (Some 2)
        example_world)
     = Some (Some (Exception ''bad str'')) \<and>
   map_option (fst \<circ> snd)
     (notify_observers (raising_code (ExceptionStrRaises (Exception ''bad str''))) 0 (Some 2)
        example_world)
     = Some [(1, 2)] \<and>
   map_option fst (notify_observers unsubscribing_code 0 (Some 2) example_world) = Some None \<and>
   map_option (fst \<circ> snd) (notify_observers unsubscribing_code 0 (Some 2) example_world)
     = Some [(1, 2)]"
  by (simp add: example_defs truthy_def notify_loop_step notify_loop_end Let_def)

text \<open>What a logging statement raises in the handler reaches the caller as well.\<close>

lemma raising_logger_propagates:
  "map_option fst (notify_observers raising_logger_code 0 (Some 2) example_world)
     = Some (Some (Exception ''log'')) \<and>
   map_option (fst \<circ> snd) (notify_observers raising_logger_code 0 (Some 2) example_world)
     = Some [(1, 2)]"
  by (simp add: example_defs notify_loop_step notify_loop_end Let_def)

subsection \<open>The stored configs\<close>









text \<open>
  So does a \<^verbatim>\<open>main\<close> that writes to \<^verbatim>\<open>self._config\<close>, once \<^verbatim>\<open>kickoff\<close> has started it.
\<close>

lemma main_may_write_config:
  "map_option (\<lambda>w'. stored_config w' 1)
     (run_calls clearing_main_code [Kickoff 1, MainStep 1] example_world)
     = Some (Some 0, Some [])"
  by (simp add: example_defs stored_config_def kickoff_def main_step_def)

section \<open>QueueManager\<close>

lemma entries_push:
  "entries (push n d qs) q = (if n = q then entries qs q @ [d] else entries qs q)"
  by (simp add: push_def entries_def)

lemma pop_cases:
  "entries qs n = [] \<Longrightarrow> fst (pop n qs) = NoData \<and> entries (snd (pop n qs)) q = entries qs q"
  "entries qs n = d # rest \<Longrightarrow> fst (pop n qs) = Data d \<and>
     entries (snd (pop n qs)) q = (if n = q then rest else entries qs q)"
  by (auto simp: pop_def entries_def split: option.splits)

lemma run_ops_Pop:
  "run_ops (Pop n # ops) qs =
     ((n, fst (pop n qs)) # fst (run_ops ops (snd (pop n qs))), snd (run_ops ops (snd (pop n qs))))"
  by (simp add: Let_def split: prod.splits)

declare run_ops.simps(3) [simp del]

declare run_ops_Pop [simp]

text \<open>
  What was in a queue at the start, followed by what was pushed to it, is what was
  popped from it, followed by what is left in it.
\<close>

lemma fifo_invariant:
  "entries qs q @ pushed_to q ops =
   popped_from q (fst (run_ops ops qs)) @ entries (snd (run_ops ops qs)) q"
proof (induction ops arbitrary: qs)
  case Nil
  show ?case by simp
next
  case (Cons op ops)
  show ?case
  proof (cases op)
    case (Push n d)
    from Cons.IH [of "push n d qs"] Push show ?thesis
      by (cases "n = q") (simp_all add: entries_push)
  next
    case (Pop n)
    show ?thesis
    proof (cases "entries qs n")
      case Nil
      from pop_cases(1) [OF Nil, of q] Cons.IH [of "snd (pop n qs)"] Pop show ?thesis
        by simp
    next
      case (Cons d rest)
      from pop_cases(2) [OF Cons, of q] Cons.IH [of "snd (pop n qs)"] Pop Cons show ?thesis
        by (cases "n = q") simp_all
    qed
  qed
qed

lemma pop_eq:
  "entries qs q = entries qs2 q \<Longrightarrow>
   fst (pop q qs) = fst (pop q qs2) \<and> entries (snd (pop q qs)) q = entries (snd (pop q qs2)) q"
  by (cases "entries qs2 q") (simp_all add: pop_cases)

lemma pop_other:
  "n \<noteq> q \<Longrightarrow> entries (snd (pop n qs)) q = entries qs q"
  by (cases "entries qs n") (simp_all add: pop_cases)

text \<open>What a history does to one queue is what its calls on that queue do.\<close>

lemma other_queues_do_not_matter:
  "entries qs q = entries qs2 q \<Longrightarrow>
   popped_from q (fst (run_ops (filter (\<lambda>op. queue_of op = q) ops) qs2))
     = popped_from q (fst (run_ops ops qs)) \<and>
   entries (snd (run_ops (filter (\<lambda>op. queue_of op = q) ops) qs2)) q
     = entries (snd (run_ops ops qs)) q"
proof (induction ops arbitrary: qs qs2)
  case Nil
  then show ?case by simp
next
  case (Cons op ops)
  show ?case
  proof (cases op)
    case (Push n d)
    show ?thesis
    proof (cases "n = q")
      case True
      have "entries (push n d qs) q = entries (push n d qs2) q"
        using Cons.prems by (simp add: entries_push)
      from Cons.IH [OF this] Push True show ?thesis by simp
    next
      case False
      have "entries (push n d qs) q = entries qs2 q"
        using Cons.prems False by (simp add: entries_push)
      from Cons.IH [OF this] Push False show ?thesis by simp
    qed
  next
    case (Pop n)
    show ?thesis
    proof (cases "n = q")
      case True
      from pop_eq [OF Cons.prems]
      have r: "fst (pop q qs) = fst (pop q qs2)"
        and e: "entries (snd (pop q qs)) q = entries (snd (pop q qs2)) q" by simp_all
      from Cons.IH [OF e] r Pop True show ?thesis
        by (cases "fst (pop q qs2)") simp_all
    next
      case False
      have "entries (snd (pop n qs)) q = entries qs2 q"
        using Cons.prems pop_other [OF False, of qs] by simp
      from Cons.IH [OF this] Pop False show ?thesis
        by (cases "fst (pop n qs)") simp_all
    qed
  qed
qed

text \<open>
  Claim C6. For every queue name and every history of pushes and pops: the entries that
  were in the queue, followed by the data pushed to it, in push order, are the data
  popped from it, in pop order, followed by the entries left in it; so pops return the
  entries in exactly the order in which they were pushed. A push appends at the tail,
  a pop takes the head (and returns "no data" on an empty queue). The calls on other
  names change nothing of this: leaving them out of the history gives the same pops
  on this name, so the order within one name is all there is.
\<close>

theorem queue_fifo_per_name:
  "entries qs q @ pushed_to q ops =
     popped_from q (fst (run_ops ops qs)) @ entries (snd (run_ops ops qs)) q \<and>
   entries (push q d qs) q = entries qs q @ [d] \<and>
   fst (pop q qs) = (case entries qs q of [] \<Rightarrow> NoData | x # rest \<Rightarrow> Data x) \<and>
   entries (snd (pop q qs)) q = tl (entries qs q) \<and>
   popped_from q (fst (run_ops (filter (\<lambda>op. queue_of op = q) ops) qs))
     = popped_from q (fst (run_ops ops qs))"
proof (intro conjI)
  show "entries qs q @ pushed_to q ops =
     popped_from q (fst (run_ops ops qs)) @ entries (snd (run_ops ops qs)) q"
    by (rule fifo_invariant)
  show "entries (push q d qs) q = entries qs q @ [d]"
    by (simp add: entries_push)
  show "fst (pop q qs) = (case entries qs q of [] \<Rightarrow> NoData | x # rest \<Rightarrow> Data x)"
    by (cases "entries qs q") (simp_all add: pop_cases)
  show "entries (snd (pop q qs)) q = tl (entries qs q)"
    by (cases "entries qs q") (simp_all add: pop_cases)
  show "popped_from q (fst (run_ops (filter (\<lambda>op. queue_of op = q) ops) qs))
     = popped_from q (fst (run_ops ops qs))"
    using other_queues_do_not_matter [of qs q qs ops] by simp
qed

text \<open>
  The theorem on a history over two queues: 4 and 7 go to q1 while 9 goes to q2; the
  pops on q1 return 4, then 7, then "no data".
\<close>

theorem queue_fifo_witness:
  "popped_from ''q1''
     (fst (run_ops [Push ''q1'' 4, Push ''q2'' 9, Push ''q1'' 7, Pop ''q1'', Pop ''q2'',
                    Pop ''q1'', Pop ''q1''] (\<lambda>n. None)))
     = [4, 7 :: nat] \<and>
   entries (snd (run_ops [Push ''q1'' (4 :: nat), Push ''q2'' 9, Push ''q1'' 7, Pop ''q1'',
                    Pop ''q2'', Pop ''q1'', Pop ''q1''] (\<lambda>n. None))) ''q1'' = []"
proof -
  let ?ops = "[Push ''q1'' 4, Push ''q2'' 9, Push ''q1'' 7, Pop ''q1'', Pop ''q2'',
               Pop ''q1'', Pop ''q1'' :: nat queue_op]"
  have left: "entries (snd (run_ops ?ops (\<lambda>n. None))) ''q1'' = []"
    by (simp add: push_def pop_def entries_def)
  have init: "entries (\<lambda>n. None) ''q1'' = ([] :: nat list)" by (simp add: entries_def)
  have pushed: "pushed_to ''q1'' ?ops = [4, 7]" by simp
  from queue_fifo_per_name [of "\<lambda>n. None" "''q1''" ?ops]
  have "entries (\<lambda>n. None) ''q1'' @ pushed_to ''q1'' ?ops =
      popped_from ''q1'' (fst (run_ops ?ops (\<lambda>n. None))) @
      entries (snd (run_ops ?ops (\<lambda>n. None))) ''q1''"
    by (rule conjunct1)
  then have "popped_from ''q1'' (fst (run_ops ?ops (\<lambda>n. None))) = [4, 7]"
    by (simp only: init pushed left append_Nil append_Nil2)
  with left show ?thesis by (intro conjI)
qed


section \<open>LoopManager\<close>

lemma walk_nonempty: "walk b c d w = (invs, r, w') \<Longrightarrow> invs \<noteq> []"
  by (cases c) (auto split: prod.splits execution.splits option.splits if_splits list.splits)

lemma shape_cons:
  "invs \<noteq> [] \<Longrightarrow> shape_ok invs r \<Longrightarrow> shape_ok (i # invs) r"
  by (cases r) auto

text \<open>
  In a walk no invocation but the last is of a NonBlocking node or of a node without a
  successor; a walk that met the end condition ends with such an invocation, and a walk
  that failed ends with the invocation of the failing node.
\<close>

lemma walk_shape:
  "walk b c d w = (invs, r, w') \<Longrightarrow>
   (\<forall>i \<in> set (butlast invs). \<not> ends_chain i) \<and> shape_ok invs r"
proof (induction b c d w arbitrary: invs r w' rule: walk.induct)
  case (1 b n successor d w)
  show ?case
  proof (cases "execute b n d w")
    case (Pair ex w1)
    show ?thesis
    proof (cases ex)
      case (Failure e)
      with Pair "1.prems" show ?thesis by auto
    next
      case (Returned d1)
      show ?thesis
      proof (cases successor)
        case None
        with Pair Returned "1.prems" show ?thesis by (auto simp: ends_chain_def)
      next
        case (Some c)
        obtain invs1 r1 w2 where rec: "walk b c d1 w1 = (invs1, r1, w2)"
          by (cases "walk b c d1 w1") auto
        from "1.IH" [OF Pair [symmetric] Returned Some rec]
        have ih: "(\<forall>i \<in> set (butlast invs1). \<not> ends_chain i) \<and> shape_ok invs1 r1" .
        from "1.prems" Pair Returned Some rec
        have eq: "invs = Invocation n Blocking True # invs1" "r = r1" by auto
        from walk_nonempty [OF rec] ih eq show ?thesis
          by (auto simp: ends_chain_def shape_cons)
      qed
    qed
  qed
next
  case (2 b n successor d w)
  then show ?case
    by (auto simp: ends_chain_def split: prod.splits execution.splits)
next
  case (3 b n edges d w)
  show ?case
  proof (cases "execute_conditional b n d w")
    case (Pair ex w1)
    show ?thesis
    proof (cases ex)
      case (Failure e)
      with Pair "3.prems" show ?thesis by auto
    next
      case (Returned ds)
      obtain d1 selector where ds: "ds = (d1, selector)" by (cases ds)
      show ?thesis
      proof (cases "edges = []")
        case True
        with Pair Returned ds "3.prems" show ?thesis by (auto simp: ends_chain_def)
      next
        case ne: False
        show ?thesis
        proof (cases "\<exists>c. selected selector edges = [c]")
          case False
          with Pair Returned ds ne "3.prems" show ?thesis
            by (auto split: list.splits)
        next
          case True
          then obtain c where c: "selected selector edges = [c]" by blast
          obtain invs1 r1 w2 where rec: "walk b c d1 w1 = (invs1, r1, w2)"
            by (cases "walk b c d1 w1") auto
          from "3.IH" [OF Pair [symmetric] Returned ds [symmetric] ne c refl rec]
          have ih: "(\<forall>i \<in> set (butlast invs1). \<not> ends_chain i) \<and> shape_ok invs1 r1" .
          from "3.prems" Pair Returned ds ne c rec
          have eq: "invs = Invocation n ConditionalBlocking True # invs1" "r = r1" by auto
          from walk_nonempty [OF rec] ih eq show ?thesis
            by (auto simp: ends_chain_def shape_cons)
        qed
      qed
    qed
  qed
qed

lemma at_most_one_end:
  assumes "\<forall>i \<in> set (butlast invs). \<not> P i"
  shows "length (filter P invs) \<le> 1 \<and>
         (invs \<noteq> [] \<and> P (last invs) \<longrightarrow> length (filter P invs) = 1)"
proof (cases "invs = []")
  case True
  then show ?thesis by simp
next
  case False
  then have split: "invs = butlast invs @ [last invs]" by simp
  from assms have "filter P (butlast invs) = []" by (simp add: filter_empty_conv)
  then have "filter P invs = filter P [last invs]"
    by (subst split) (simp only: filter_append, simp)
  then show ?thesis by simp
qed

text \<open>
  Claim C1, as amended. In every pass through the cycle no node is invoked after a
  NonBlocking node or after a node with no configured downstream successor: every
  invocation but the last is of a node that is not NonBlocking and has a successor. So
  a pass has at most one NonBlocking-or-terminal event. A pass that reaches the end
  condition (no node fails and the producer has work) ends exactly at such an event:
  its last invocation is one, and it is the only one. A pass ended by a node failure
  stops at the failing node, which need not be NonBlocking or the last of its chain.
\<close>

theorem iteration_stops_at_nonblocking_or_end:
  assumes "iteration b l w = (invs, r, w')"
  shows "(\<forall>i \<in> set (butlast invs). \<not> ends_chain i) \<and>
         length (filter ends_chain invs) \<le> 1 \<and>
         ((\<exists>d. r = EndReached d) \<longrightarrow>
            ends_chain (last invs) \<and> length (filter ends_chain invs) = 1) \<and>
         (\<forall>n e x. r = Failed n e x \<longrightarrow> invoked (last invs) = n)"
proof -
  let ?first = "Invocation (producer l) Producer (chain l \<noteq> None)"
  have shape: "(\<forall>i \<in> set (butlast invs). \<not> ends_chain i) \<and>
      ((\<exists>d. r = EndReached d) \<longrightarrow> invs \<noteq> [] \<and> ends_chain (last invs)) \<and>
      (\<forall>n e x. r = Failed n e x \<longrightarrow> invoked (last invs) = n)"
  proof (cases "produce b (producer l) w")
    case (Pair p w1)
    show ?thesis
    proof (cases p)
      case NoWork
      with Pair assms show ?thesis by (auto simp: iteration_def)
    next
      case (ProducerFailure e)
      with Pair assms show ?thesis by (auto simp: iteration_def)
    next
      case (Produced d)
      show ?thesis
      proof (cases "chain l")
        case None
        with Pair Produced assms show ?thesis by (auto simp: iteration_def ends_chain_def)
      next
        case (Some c)
        obtain invs1 r1 w2 where rec: "walk b c d w1 = (invs1, r1, w2)"
          by (cases "walk b c d w1") auto
        from walk_shape [OF rec] walk_nonempty [OF rec]
        have ih: "\<forall>i \<in> set (butlast invs1). \<not> ends_chain i" "shape_ok invs1 r1" "invs1 \<noteq> []"
          by simp_all
        from assms Pair Produced Some rec
        have eq: "invs = ?first # invs1" "r = r1" by (auto simp: iteration_def)
        from ih eq Some show ?thesis by (cases r1) (auto simp: ends_chain_def)
      qed
    qed
  qed
  with at_most_one_end [of invs ends_chain] show ?thesis by blast
qed

text \<open>
  The theorem on the first scenario: the producer emits 2, the Blocking node returns 4,
  the NonBlocking node pushes 4 to the queue and the pass ends there.
\<close>

theorem iteration_stops_witness:
  "iteration doubling loop_A [] =
     ([Invocation ''producer'' Producer True, Invocation ''double'' Blocking True,
       Invocation ''queue_write'' NonBlocking False], EndReached 4, [4]) \<and>
   ends_chain (Invocation ''queue_write'' NonBlocking False) \<and>
   length (filter ends_chain
     [Invocation ''producer'' Producer True, Invocation ''double'' Blocking True,
      Invocation ''queue_write'' NonBlocking False]) = 1"
proof -
  have run: "iteration doubling loop_A [] =
     ([Invocation ''producer'' Producer True, Invocation ''double'' Blocking True,
       Invocation ''queue_write'' NonBlocking False], EndReached 4, [4])"
    by (simp add: iteration_def doubling_def loop_A_def)
  from iteration_stops_at_nonblocking_or_end [OF run] run show ?thesis by simp
qed

text \<open>
  The claim as it was stated, for every iteration, fails on the third scenario: the
  Blocking node fails, the walk stops at a node that is neither NonBlocking nor the
  last of its chain, and the pass has no NonBlocking-or-terminal event at all.
\<close>

theorem failed_iteration_counterexample:
  "iteration failing loop_A [] =
     ([Invocation ''producer'' Producer True, Invocation ''double'' Blocking True],
      Failed ''double'' ''error'' (Some 2), []) \<and>
   filter ends_chain
     [Invocation ''producer'' Producer True, Invocation ''double'' Blocking True] = []"
  by (simp add: iteration_def failing_def doubling_def loop_A_def ends_chain_def)

end
